theory Spec2Isabelle
  imports Complex_Main "HOL-Library.Word" "HOL-Library.Multiset"
begin

unbundle bit_operations_syntax

section \<open>The slot storage of \<open>jvn::unordered_map\<close> (src/map.h)\<close>

text \<open>
  The buffer interleaves, for every slot, one info byte (\<open>uint8_t\<close>) and the raw storage
  of one \<open>pair<Kt, Vt>\<close>. The info byte is \<open>uint8_t(-1)\<close>, that is 255, for an empty
  slot and the distance from the hash position otherwise. A slot of the model is the
  info byte together with the storage: \<open>None\<close> is storage in which no pair has been
  constructed, \<open>Some (k, v)\<close> a constructed pair. All pointers of the source move in
  steps of \<open>ELEM_OFFSET\<close> from \<open>m_info_bucket\<close>, so a pointer is the slot index, and
  the index \<open>m_capacity\<close> is \<open>end(m_info_bucket)\<close>, where the sentinel byte 0 lives.
\<close>

type_synonym ('k, 'v) slot = "8 word \<times> ('k \<times> 'v) option"

datatype error =
    Out_of_bounds
  | Uninitialised
  | Alloc_overflow
  | Float_range
  | Growth_depth

record ('k, 'v) unordered_map =
  ELEM_OFFSET :: nat
  LOAD_FACTOR :: real
  INITIAL_CAPACITY :: nat
  GROWTH_FACTOR :: nat
  m_capacity_dec :: nat
  m_max_elems :: nat
  m_capacity :: nat
  m_size :: nat
  m_slots :: "('k, 'v) slot list"

text \<open>\<open>size_type\<close> is the 64-bit \<open>size_t\<close>; its arithmetic wraps.\<close>

definition size_t :: "nat \<Rightarrow> nat" where
  "size_t n = n mod 2 ^ 64"

text \<open>
  \<open>advance_iter\<close> by one slot followed by the bounds check of the probing loops:
  \<open>if (iter_info == end(m_info_bucket)) iter_info = m_info_bucket\<close>.
\<close>

definition advance_wrap :: "nat \<Rightarrow> nat \<Rightarrow> nat" where
  "advance_wrap cap i = (if Suc i = cap then 0 else Suc i)"

text \<open>\<open>hashAndTrim\<close>: \<open>hasher{}(key) & m_capacity_dec\<close>. The hasher is a parameter.\<close>

definition hashAndTrim :: "('k \<Rightarrow> nat) \<Rightarrow> ('k, 'v) unordered_map \<Rightarrow> 'k \<Rightarrow> nat" where
  "hashAndTrim hasher t key = hasher key AND m_capacity_dec t"

subsection \<open>find\<close>

text \<open>
  The loop of \<open>find\<close> (map.h 121-137); \<open>probe\<close> is the source's \<open>id\<close>, the
  \<open>uint8_t\<close> distance from the hash position. The result is the slot index of the
  iterator returned, \<open>cap\<close> for \<open>end()\<close>. Reading a slot beyond the buffer, or the
  key of storage that holds no pair, is undefined in the source and an error here.
\<close>

function find_loop ::
  "nat \<Rightarrow> ('k, 'v) slot list \<Rightarrow> 'k \<Rightarrow> 8 word \<Rightarrow> nat \<Rightarrow> error + nat" where
  "find_loop cap slots key probe i =
     (if length slots \<le> i then Inl Out_of_bounds
      else case slots ! i of (info, e) \<Rightarrow>
        if info = 255 \<or> info < probe then Inr cap
        else if info = probe then
          (case e of
             None \<Rightarrow> Inl Uninitialised
           | Some (k, v) \<Rightarrow>
               if k = key then Inr i
               else find_loop cap slots key (probe + 1) (advance_wrap cap i))
        else find_loop cap slots key (probe + 1) (advance_wrap cap i))"
  by pat_completeness auto

lemma unat_tag_less: "unat (x :: 8 word) < 256"
  using unsigned_less [of x, where ?'a = nat] by simp

lemma unat_tag_neq:
  assumes "(x :: 8 word) \<noteq> 255"
  shows "unat x < 255"
proof -
  have "unat x \<noteq> unat (255 :: 8 word)"
    using assms by (simp only: word_unat_eq_iff not_False_eq_True)
  then have "unat x \<noteq> 255" by simp
  then show ?thesis using unat_tag_less [of x] by simp
qed

lemma unat_tag_Suc: "(x :: 8 word) \<noteq> 255 \<Longrightarrow> unat (x + 1) = Suc (unat x)"
  using unat_tag_neq [of x] by (simp add: unat_word_ariths)

lemma tag_step:
  assumes "\<not> (info :: 8 word) < d" and "info \<noteq> 255"
  shows "d \<noteq> 255" and "unat (d + 1) = Suc (unat d)" and "unat d < 255"
proof -
  have "unat d \<le> unat info" using assms(1) by (simp add: word_less_nat_alt)
  moreover have "unat info < 255" using assms(2) by (rule unat_tag_neq)
  ultimately show "unat d < 255" by simp
  then show "d \<noteq> 255" by auto
  then show "unat (d + 1) = Suc (unat d)" by (rule unat_tag_Suc)
qed

lemma tag_step_measure:
  "\<not> (info :: 8 word) < d \<Longrightarrow> info \<noteq> 255 \<Longrightarrow> 255 - unat (d + 1) < 255 - unat d"
  using tag_step(2,3) [of info d] by simp

termination find_loop
  by (relation "measure (\<lambda>(cap, slots, key, probe, i). 255 - unat probe)")
     (auto intro: tag_step_measure)

definition find_key :: "('k \<Rightarrow> nat) \<Rightarrow> ('k, 'v) unordered_map \<Rightarrow> 'k \<Rightarrow> error + nat" where
  "find_key hasher t key =
     find_loop (m_capacity t) (m_slots t) key 0 (hashAndTrim hasher t key)"

subsection \<open>insert, without the growth\<close>

text \<open>
  The loop of \<open>insert\<close> (map.h 155-185) up to its two exits: the slots after the
  loop, the slot of the exit and whether a pair was constructed there. \<open>kv\<close> is
  \<open>key_value_pair\<close>, which the swap with a richer slot replaces by the pair that was
  stored there. The source compares the stored key with \<open>key_value_pair.first\<close>, the
  key carried at that moment.
\<close>

definition slot_weight :: "('k, 'v) slot list \<Rightarrow> nat" where
  "slot_weight slots = sum_list (map (\<lambda>s. 255 - unat (fst s)) slots)"

function insert_loop ::
  "nat \<Rightarrow> ('k, 'v) slot list \<Rightarrow> 'k \<times> 'v \<Rightarrow> 8 word \<Rightarrow> nat
     \<Rightarrow> error + (('k, 'v) slot list \<times> nat \<times> bool)" where
  "insert_loop cap slots kv probe i =
     (if length slots \<le> i then Inl Out_of_bounds
      else case slots ! i of (info, e) \<Rightarrow>
        if info = 255 then Inr (slots[i := (probe, Some kv)], i, True)
        else case e of
          None \<Rightarrow> Inl Uninitialised
        | Some r \<Rightarrow>
            if info = probe \<and> fst r = fst kv then Inr (slots, i, False)
            else if info < probe
              then insert_loop cap (slots[i := (probe, Some kv)]) r (info + 1) (advance_wrap cap i)
              else insert_loop cap slots kv (probe + 1) (advance_wrap cap i))"
  by pat_completeness auto

lemma slot_weight_update:
  "i < length slots \<Longrightarrow>
     slot_weight (slots[i := s]) + (255 - unat (fst (slots ! i)))
       = slot_weight slots + (255 - unat (fst s))"
proof (induction slots arbitrary: i)
  case Nil
  then show ?case by simp
next
  case (Cons a slots)
  then show ?case
    by (cases i) (auto simp: slot_weight_def)
qed

lemma slot_weight_swap:
  assumes "\<not> length slots \<le> i" and "(info, e0) = slots ! i" and "info < d"
  shows "slot_weight (slots[i := (d, e)]) < slot_weight slots"
proof -
  have i: "i < length slots" using assms(1) by simp
  have "fst (slots ! i) = info" using assms(2) by (metis fst_conv)
  then have "unat (fst (slots ! i)) < unat d" using assms(3) by (simp add: word_less_nat_alt)
  moreover have "unat d < 256" by (rule unat_tag_less)
  ultimately show ?thesis using slot_weight_update [OF i, of "(d, e)"] by simp
qed

termination insert_loop
proof (relation "measures [\<lambda>(cap, slots, kv, probe, i). slot_weight slots,
                           \<lambda>(cap, slots, kv, probe, i). 255 - unat probe]", goal_cases)
  case 1
  show ?case by simp
next
  case 2
  then show ?case by (simp add: slot_weight_swap)
next
  case 3
  then show ?case by (simp add: tag_step_measure)
qed

subsection \<open>erase\<close>

text \<open>
  One round of the loop of \<open>erase\<close> (map.h 207-209): the info bytes and the pairs of
  the previous and the current slot are swapped, then the info byte now in the previous
  slot is decremented.
\<close>

definition shift_back :: "('k, 'v) slot list \<Rightarrow> nat \<Rightarrow> nat \<Rightarrow> ('k, 'v) slot list" where
  "shift_back slots prev cur =
     (let swapped = slots[prev := slots ! cur, cur := slots ! prev]
      in swapped[prev := (fst (swapped ! prev) - 1, snd (swapped ! prev))])"

definition tag_sum :: "('k, 'v) slot list \<Rightarrow> nat" where
  "tag_sum slots = sum_list (map (\<lambda>s. unat (fst s)) slots)"

function erase_loop ::
  "nat \<Rightarrow> ('k, 'v) slot list \<Rightarrow> nat \<Rightarrow> nat \<Rightarrow> error + ('k, 'v) slot list" where
  "erase_loop cap slots prev cur =
     (if length slots \<le> prev \<or> length slots \<le> cur then Inl Out_of_bounds
      else if fst (slots ! cur) \<noteq> 0 \<and> fst (slots ! cur) \<noteq> 255
        then erase_loop cap (shift_back slots prev cur)
               (advance_wrap cap prev) (advance_wrap cap cur)
        else Inr (slots[prev := (255, None)]))"
  by pat_completeness auto

lemma tag_sum_update:
  "i < length slots \<Longrightarrow>
     tag_sum (slots[i := s]) + unat (fst (slots ! i)) = tag_sum slots + unat (fst s)"
proof (induction slots arbitrary: i)
  case Nil
  then show ?case by simp
next
  case (Cons a slots)
  then show ?case
    by (cases i) (auto simp: tag_sum_def)
qed

lemma unat_tag_pred: "(x :: 8 word) \<noteq> 0 \<Longrightarrow> Suc (unat (x - 1)) = unat x"
  by (metis Suc_pred' unat_gt_0 unat_minus_one)

lemma shift_back_eq:
  assumes "prev < length slots" and "cur < length slots"
  shows "shift_back slots prev cur =
           (if prev = cur then slots[prev := (fst (slots ! cur) - 1, snd (slots ! cur))]
            else slots[cur := slots ! prev, prev := (fst (slots ! cur) - 1, snd (slots ! cur))])"
  using assms by (auto simp: shift_back_def Let_def list_update_swap [of prev cur])

lemma tag_sum_shift_back:
  assumes "prev < length slots" and "cur < length slots" and "fst (slots ! cur) \<noteq> 0"
  shows "Suc (tag_sum (shift_back slots prev cur)) = tag_sum slots"
proof (cases "prev = cur")
  case True
  then show ?thesis
    using assms tag_sum_update [of cur slots "(fst (slots ! cur) - 1, snd (slots ! cur))"]
      unat_tag_pred [of "fst (slots ! cur)"]
    by (simp add: shift_back_eq)
next
  case False
  let ?s1 = "slots[cur := slots ! prev]"
  have 1: "tag_sum ?s1 + unat (fst (slots ! cur)) = tag_sum slots + unat (fst (slots ! prev))"
    using assms(2) by (rule tag_sum_update)
  have "tag_sum (?s1[prev := (fst (slots ! cur) - 1, snd (slots ! cur))]) + unat (fst (?s1 ! prev))
          = tag_sum ?s1 + unat (fst (fst (slots ! cur) - 1, snd (slots ! cur)))"
    using assms(1) by (intro tag_sum_update) simp
  then have 2: "tag_sum (?s1[prev := (fst (slots ! cur) - 1, snd (slots ! cur))])
                  + unat (fst (slots ! prev)) = tag_sum ?s1 + unat (fst (slots ! cur) - 1)"
    using False by simp
  show ?thesis
    using 1 2 False assms unat_tag_pred [of "fst (slots ! cur)"]
    by (simp add: shift_back_eq)
qed

termination erase_loop
  by (relation "measure (\<lambda>(cap, slots, prev, cur). tag_sum slots)")
     (auto simp: not_le dest: tag_sum_shift_back)

definition erase ::
  "('k \<Rightarrow> nat) \<Rightarrow> ('k, 'v) unordered_map \<Rightarrow> 'k \<Rightarrow> error + (('k, 'v) unordered_map \<times> nat)" where
  "erase hasher t key =
     (case find_key hasher t key of
        Inl err \<Rightarrow> Inl err
      | Inr iter \<Rightarrow>
          if iter = m_capacity t then Inr (t, 0)
          else (case erase_loop (m_capacity t) (m_slots t) iter
                       (advance_wrap (m_capacity t) iter) of
                  Inl err \<Rightarrow> Inl err
                | Inr slots \<Rightarrow>
                    Inr (t\<lparr>m_size := size_t (m_size t + 2 ^ 64 - 1), m_slots := slots\<rparr>, 1)))"

subsection \<open>Construction and growth\<close>

text \<open>
  \<open>closestPowerOfTwo\<close> (map.h 289-301) on \<open>size_type\<close>, for any width of \<open>size_t\<close>
  (hash.h supports 64 and 32 bits).
\<close>

definition closestPowerOfTwo :: "'a::len word \<Rightarrow> 'a word" where
  "closestPowerOfTwo num =
     (if num < 2 then 2
      else let n0 = num - 1;
               n1 = n0 OR drop_bit 1 n0;
               n2 = n1 OR drop_bit 2 n1;
               n3 = n2 OR drop_bit 4 n2;
               n4 = n3 OR drop_bit 8 n3;
               n5 = n4 OR drop_bit 16 n4
           in n5 + 1)"

text \<open>
  \<open>m_allocator.allocate(m_capacity * ELEM_OFFSET + 1)\<close> followed by the loop that sets
  every info byte to \<open>uint8_t(-1)\<close>. The byte at \<open>end(m_info_bucket)\<close>, set to 0, is
  not a slot of the list (see \<open>info_at\<close>). A byte count that does not fit \<open>size_t\<close>
  wraps in the source, which then writes behind the buffer it got; here it is an error.
\<close>

definition allocate :: "nat \<Rightarrow> nat \<Rightarrow> error + ('k, 'v) slot list" where
  "allocate elem_offset cap =
     (if 2 ^ 64 \<le> cap * elem_offset + 1 then Inl Alloc_overflow
      else Inr (replicate cap (255, None)))"

text \<open>
  \<open>size_type(m_capacity * LOAD_FACTOR)\<close>: the capacity is converted to \<open>float\<close> and
  multiplied, and the conversion back truncates; it is undefined when the truncated
  value is not a \<open>size_t\<close>. The load factor is the real number the \<open>float\<close> stands
  for, and the product is taken exactly, as the \<open>float\<close> product is for a capacity that
  is a power of two.
\<close>

definition float_to_size :: "real \<Rightarrow> error + nat" where
  "float_to_size x = (if x \<le> - 1 \<or> 2 ^ 64 \<le> x then Inl Float_range else Inr (nat \<lfloor>x\<rfloor>))"

text \<open>The constructor (map.h 74-93); \<open>sizeof_value\<close> is \<open>sizeof(value_type)\<close>.\<close>

definition unordered_map ::
  "nat \<Rightarrow> real \<Rightarrow> 64 word \<Rightarrow> 64 word \<Rightarrow> error + ('k, 'v) unordered_map" where
  "unordered_map sizeof_value load_factor inital_capacity growth_factor =
     (let ic = unat (closestPowerOfTwo inital_capacity);
          gf = unat (closestPowerOfTwo growth_factor)
      in case float_to_size (real ic * load_factor) of
           Inl err \<Rightarrow> Inl err
         | Inr max_elems \<Rightarrow>
             (case allocate (1 + sizeof_value) ic of
                Inl err \<Rightarrow> Inl err
              | Inr slots \<Rightarrow>
                  Inr \<lparr>ELEM_OFFSET = 1 + sizeof_value, LOAD_FACTOR = load_factor,
                       INITIAL_CAPACITY = ic, GROWTH_FACTOR = gf,
                       m_capacity_dec = size_t (ic + 2 ^ 64 - 1), m_max_elems = max_elems,
                       m_capacity = ic, m_size = 0, m_slots = slots\<rparr>))"

text \<open>
  The loop of \<open>grow\<close> that reinserts the old slots (map.h 282-284); \<open>ins\<close> is the
  \<open>insert\<close> it calls.
\<close>

fun rehash ::
  "(('k, 'v) unordered_map \<Rightarrow> 'k \<times> 'v \<Rightarrow> error + (('k, 'v) unordered_map \<times> nat \<times> bool))
     \<Rightarrow> ('k, 'v) unordered_map \<Rightarrow> ('k, 'v) slot list \<Rightarrow> error + ('k, 'v) unordered_map" where
  "rehash ins t [] = Inr t"
| "rehash ins t ((info, e) # rest) =
     (if info \<noteq> 255
      then (case e of
              None \<Rightarrow> Inl Uninitialised
            | Some kv \<Rightarrow>
                (case ins t kv of
                   Inl err \<Rightarrow> Inl err
                 | Inr (t', iter, inserted) \<Rightarrow> rehash ins t' rest))
      else rehash ins t rest)"

definition grow ::
  "(('k, 'v) unordered_map \<Rightarrow> 'k \<times> 'v \<Rightarrow> error + (('k, 'v) unordered_map \<times> nat \<times> bool))
     \<Rightarrow> ('k, 'v) unordered_map \<Rightarrow> error + ('k, 'v) unordered_map" where
  "grow ins t =
     (let prev_capacity = m_capacity t;
          prev_slots = m_slots t;
          cap = size_t (prev_capacity * GROWTH_FACTOR t)
      in case float_to_size (real cap * LOAD_FACTOR t) of
           Inl err \<Rightarrow> Inl err
         | Inr max_elems \<Rightarrow>
             (case allocate (ELEM_OFFSET t) cap of
                Inl err \<Rightarrow> Inl err
              | Inr slots \<Rightarrow>
                  rehash ins
                    (t\<lparr>m_capacity_dec := size_t (cap + 2 ^ 64 - 1), m_max_elems := max_elems,
                       m_capacity := cap, m_size := 0, m_slots := slots\<rparr>)
                    (take prev_capacity prev_slots)))"

subsection \<open>insert\<close>

text \<open>
  \<open>insert\<close> (map.h 141-186) with the \<open>insert\<close> that \<open>grow\<close> calls as a parameter.
  The iterator of a new pair is \<open>find(key)\<close> for the key given, looked up after the
  growth.
\<close>

definition insert_with ::
  "(('k, 'v) unordered_map \<Rightarrow> 'k \<times> 'v \<Rightarrow> error + (('k, 'v) unordered_map \<times> nat \<times> bool))
     \<Rightarrow> ('k \<Rightarrow> nat) \<Rightarrow> ('k, 'v) unordered_map \<Rightarrow> 'k \<times> 'v
     \<Rightarrow> error + (('k, 'v) unordered_map \<times> nat \<times> bool)" where
  "insert_with ins hasher t key_value_pair =
     (case insert_loop (m_capacity t) (m_slots t) key_value_pair 0
             (hashAndTrim hasher t (fst key_value_pair)) of
        Inl err \<Rightarrow> Inl err
      | Inr (slots, i, constructed) \<Rightarrow>
          if constructed
          then (let t1 = t\<lparr>m_size := size_t (m_size t + 1), m_slots := slots\<rparr>
                in case (if m_size t1 = m_max_elems t1 then grow ins t1 else Inr t1) of
                     Inl err \<Rightarrow> Inl err
                   | Inr t2 \<Rightarrow>
                       (case find_key hasher t2 (fst key_value_pair) of
                          Inl err \<Rightarrow> Inl err
                        | Inr iter \<Rightarrow> Inr (t2, iter, True)))
          else Inr (t\<lparr>m_slots := slots\<rparr>, i, False))"

text \<open>
  \<open>insert\<close> and \<open>grow\<close> call each other. \<open>insert_depth n\<close> is \<open>insert\<close> with at most
  \<open>n\<close> calls of \<open>insert\<close> active at a time; a call beyond that is the error
  \<open>Growth_depth\<close>. One growth inside another multiplies the capacity twice, and the
  capacity is a \<open>size_t\<close>.
\<close>

primrec insert_depth ::
  "nat \<Rightarrow> ('k \<Rightarrow> nat) \<Rightarrow> ('k, 'v) unordered_map \<Rightarrow> 'k \<times> 'v
     \<Rightarrow> error + (('k, 'v) unordered_map \<times> nat \<times> bool)" where
  "insert_depth 0 hasher = (\<lambda>t kv. Inl Growth_depth)"
| "insert_depth (Suc n) hasher = insert_with (insert_depth n hasher) hasher"

definition insert_pair ::
  "('k \<Rightarrow> nat) \<Rightarrow> ('k, 'v) unordered_map \<Rightarrow> 'k \<times> 'v
     \<Rightarrow> error + (('k, 'v) unordered_map \<times> nat \<times> bool)" where
  "insert_pair hasher t kv = insert_depth 64 hasher t kv"

subsection \<open>Iteration\<close>

text \<open>
  The info byte an iterator at slot \<open>i\<close> reads: the byte at \<open>end(m_info_bucket)\<close> is
  the 0 the constructor wrote behind the slots.
\<close>

definition info_at :: "('k, 'v) unordered_map \<Rightarrow> nat \<Rightarrow> error + 8 word" where
  "info_at t i =
     (if i = m_capacity t then Inr 0
      else if i < m_capacity t \<and> i < length (m_slots t) then Inr (fst (m_slots t ! i))
      else Inl Out_of_bounds)"

text \<open>The loop of \<open>Iter::operator++\<close>: \<open>while (*m_info_ptr == uint8_t(-1)) advance\<close>.\<close>

function skip_empty :: "('k, 'v) unordered_map \<Rightarrow> nat \<Rightarrow> error + nat" where
  "skip_empty t i =
     (case info_at t i of
        Inl err \<Rightarrow> Inl err
      | Inr info \<Rightarrow> if info = 255 then skip_empty t (Suc i) else Inr i)"
  by pat_completeness auto

termination skip_empty
  by (relation "measure (\<lambda>(t, i). m_capacity t - i)")
     (auto simp: info_at_def split: if_splits)

definition iter_incr :: "('k, 'v) unordered_map \<Rightarrow> nat \<Rightarrow> error + nat" where
  "iter_incr t i = skip_empty t (Suc i)"

text \<open>The constructor of \<open>Iter\<close>, then \<open>begin()\<close> and \<open>end()\<close>.\<close>

definition Iter :: "('k, 'v) unordered_map \<Rightarrow> nat \<Rightarrow> error + nat" where
  "Iter t i =
     (case info_at t i of
        Inl err \<Rightarrow> Inl err
      | Inr info \<Rightarrow> if info = 255 then iter_incr t i else Inr i)"

definition begin_iter :: "('k, 'v) unordered_map \<Rightarrow> error + nat" where
  "begin_iter t = Iter t 0"

definition end_iter :: "('k, 'v) unordered_map \<Rightarrow> error + nat" where
  "end_iter t = Iter t (m_capacity t)"

lemma skip_empty_bounds: "skip_empty t i = Inr j \<Longrightarrow> i \<le> j \<and> j \<le> m_capacity t"
proof (induction t i rule: skip_empty.induct)
  case (1 t i)
  show ?case
  proof (cases "info_at t i")
    case (Inl err)
    with "1.prems" show ?thesis by simp
  next
    case (Inr info)
    show ?thesis
    proof (cases "info = 255")
      case True
      with Inr "1.prems" "1.IH" have "Suc i \<le> j \<and> j \<le> m_capacity t" by simp
      then show ?thesis by simp
    next
      case False
      with Inr "1.prems" have "j = i" by simp
      moreover have "i \<le> m_capacity t"
        using Inr by (auto simp: info_at_def split: if_splits)
      ultimately show ?thesis by simp
    qed
  qed
qed

text \<open>
  \<open>for (it = begin(); it != end(); ++it)\<close> collecting \<open>*it\<close>, from the iterator
  \<open>i\<close> on; two iterators are equal when their info pointers are.
\<close>

function iterate_from :: "('k, 'v) unordered_map \<Rightarrow> nat \<Rightarrow> error + ('k \<times> 'v) list" where
  "iterate_from t i =
     (if i = m_capacity t then Inr []
      else if length (m_slots t) \<le> i then Inl Out_of_bounds
      else case snd (m_slots t ! i) of
        None \<Rightarrow> Inl Uninitialised
      | Some kv \<Rightarrow>
          (case iter_incr t i of
             Inl err \<Rightarrow> Inl err
           | Inr j \<Rightarrow>
               (case iterate_from t j of
                  Inl err \<Rightarrow> Inl err
                | Inr kvs \<Rightarrow> Inr (kv # kvs))))"
  by pat_completeness auto

termination iterate_from
proof (relation "measure (\<lambda>(t, i). m_capacity t - i)", goal_cases)
  case 1
  show ?case by simp
next
  case (2 t i kv j)
  then have "Suc i \<le> j \<and> j \<le> m_capacity t"
    using skip_empty_bounds [of t "Suc i" j] by (simp add: iter_incr_def)
  then have "m_capacity t - j < m_capacity t - i" by arith
  then show ?case by simp
qed

definition iterate :: "('k, 'v) unordered_map \<Rightarrow> error + ('k \<times> 'v) list" where
  "iterate t = (case begin_iter t of Inl err \<Rightarrow> Inl err | Inr i \<Rightarrow> iterate_from t i)"

section \<open>The invariants of the table\<close>

text \<open>
  A slot is occupied when its info byte is not 255; \<open>entries\<close> are the pairs of the
  occupied slots in slot order.
\<close>

definition occupied :: "('k, 'v) slot \<Rightarrow> bool" where
  "occupied s \<longleftrightarrow> fst s \<noteq> 255"

definition entries :: "('k, 'v) slot list \<Rightarrow> ('k \<times> 'v) list" where
  "entries slots = map (\<lambda>s. the (snd s)) (filter occupied slots)"

definition key_at :: "('k, 'v) slot list \<Rightarrow> nat \<Rightarrow> 'k" where
  "key_at slots p = fst (the (snd (slots ! p)))"

text \<open>Every occupied slot holds a constructed pair.\<close>

definition constructed :: "('k, 'v) slot list \<Rightarrow> bool" where
  "constructed slots \<longleftrightarrow> (\<forall>s \<in> set slots. occupied s \<longrightarrow> snd s \<noteq> None)"

text \<open>
  The info byte of an occupied slot is the distance of the slot from the hash position
  \<open>hm k\<close> of its key, counted with wrap-around.
\<close>

definition positioned :: "nat \<Rightarrow> ('k \<Rightarrow> nat) \<Rightarrow> ('k, 'v) slot list \<Rightarrow> bool" where
  "positioned cap hm slots \<longleftrightarrow>
     (\<forall>p < cap. occupied (slots ! p) \<longrightarrow>
        p = (hm (key_at slots p) + unat (fst (slots ! p))) mod cap)"

text \<open>
  The ordering of Robin Hood hashing: an occupied slot with a distance above 0 follows an
  occupied slot, and its distance is at most one more than the distance there.
\<close>

definition ordered :: "nat \<Rightarrow> ('k, 'v) slot list \<Rightarrow> bool" where
  "ordered cap slots \<longleftrightarrow>
     (\<forall>i < cap. occupied (slots ! advance_wrap cap i) \<and> fst (slots ! advance_wrap cap i) \<noteq> 0 \<longrightarrow>
        occupied (slots ! i) \<and>
        unat (fst (slots ! advance_wrap cap i)) \<le> Suc (unat (fst (slots ! i))))"

definition unique_keys :: "nat \<Rightarrow> ('k, 'v) slot list \<Rightarrow> bool" where
  "unique_keys cap slots \<longleftrightarrow>
     (\<forall>p < cap. \<forall>q < cap. occupied (slots ! p) \<longrightarrow> occupied (slots ! q) \<longrightarrow>
        key_at slots p = key_at slots q \<longrightarrow> p = q)"

definition robin_hood :: "nat \<Rightarrow> ('k \<Rightarrow> nat) \<Rightarrow> ('k, 'v) slot list \<Rightarrow> bool" where
  "robin_hood cap hm slots \<longleftrightarrow>
     length slots = cap \<and> 0 < cap \<and> (\<forall>k. hm k < cap) \<and> constructed slots \<and>
     positioned cap hm slots \<and> ordered cap slots \<and> unique_keys cap slots"

lemma advance_wrap_less: "i < cap \<Longrightarrow> advance_wrap cap i < cap"
  by (auto simp: advance_wrap_def)

lemma advance_wrap_mod: "i < cap \<Longrightarrow> advance_wrap cap i = Suc i mod cap"
  by (auto simp: advance_wrap_def)

lemma advance_wrap_add: "0 < cap \<Longrightarrow> advance_wrap cap ((a + j) mod cap) = (a + Suc j) mod cap"
  by (simp add: advance_wrap_mod mod_Suc_eq)

lemma advance_wrap_inj:
  assumes "i < cap" "j < cap" "advance_wrap cap i = advance_wrap cap j"
  shows "i = j"
  using assms by (auto simp: advance_wrap_def split: if_splits)

lemma ordered_path:
  assumes "ordered cap slots" and "0 < cap"
    and "occupied (slots ! ((a + d) mod cap))"
    and "d \<le> unat (fst (slots ! ((a + d) mod cap)))"
    and "j \<le> d"
  shows "occupied (slots ! ((a + j) mod cap)) \<and> j \<le> unat (fst (slots ! ((a + j) mod cap)))"
  using assms(5)
proof (induction "d - j" arbitrary: j)
  case 0
  then show ?case using assms(3,4) by simp
next
  case (Suc m)
  then have j: "Suc j \<le> d" and m: "m = d - Suc j" by simp_all
  let ?n = "(a + Suc j) mod cap" and ?i = "(a + j) mod cap"
  have n: "occupied (slots ! ?n) \<and> Suc j \<le> unat (fst (slots ! ?n))"
    using Suc.hyps(1) [OF m j] .
  then have "fst (slots ! ?n) \<noteq> 0" by auto
  moreover have "advance_wrap cap ?i = ?n" using assms(2) by (rule advance_wrap_add)
  moreover have "?i < cap" using assms(2) by simp
  ultimately have "occupied (slots ! ?i) \<and> unat (fst (slots ! ?n)) \<le> Suc (unat (fst (slots ! ?i)))"
    using assms(1) n unfolding ordered_def by metis
  with n show ?case by simp
qed

declare find_loop.simps [simp del] insert_loop.simps [simp del] erase_loop.simps [simp del]

lemma constructed_nth:
  "constructed slots \<Longrightarrow> i < length slots \<Longrightarrow> occupied (slots ! i) \<Longrightarrow> \<exists>k v. snd (slots ! i) = Some (k, v)"
  unfolding constructed_def by (metis nth_mem option.exhaust surj_pair)

lemma find_loop_sound:
  "find_loop cap slots key probe i = Inr r \<Longrightarrow> length slots = cap \<Longrightarrow> r \<noteq> cap \<Longrightarrow>
     r < cap \<and> occupied (slots ! r) \<and> (\<exists>v. snd (slots ! r) = Some (key, v))"
proof (induction cap slots key probe i rule: find_loop.induct)
  case (1 cap slots key probe i)
  show ?case
    using "1.prems" "1.IH"
    by (subst (asm) find_loop.simps)
       (auto simp: occupied_def split: if_splits prod.splits option.splits)
qed

lemma find_loop_returns:
  "length slots = cap \<Longrightarrow> constructed slots \<Longrightarrow> i < cap \<Longrightarrow>
     \<exists>r. find_loop cap slots key probe i = Inr r \<and> r \<le> cap"
proof (induction cap slots key probe i rule: find_loop.induct)
  case (1 cap slots key probe i)
  have adv: "advance_wrap cap i < cap" using "1.prems"(3) by (rule advance_wrap_less)
  obtain info e where s: "slots ! i = (info, e)" by (cases "slots ! i")
  show ?case
  proof (cases "info = 255 \<or> info < probe")
    case True
    then show ?thesis using s "1.prems" by (subst find_loop.simps) auto
  next
    case False
    then have occ: "occupied (slots ! i)" using s by (simp add: occupied_def)
    then obtain k v where e: "e = Some (k, v)"
      using constructed_nth [OF "1.prems"(2), of i] "1.prems" s by auto
    show ?thesis
    proof (cases "info = probe \<and> k = key")
      case True
      then show ?thesis using s e False "1.prems" by (subst find_loop.simps) auto
    next
      case F2: False
      have "\<exists>r. find_loop cap slots key (probe + 1) (advance_wrap cap i) = Inr r \<and> r \<le> cap"
      proof (cases "info = probe")
        case True
        with F2 have "k \<noteq> key" by simp
        then show ?thesis
          using "1.IH"(1) [of info e "(k, v)" k v] s e True False "1.prems" adv by auto
      next
        case F3: False
        then show ?thesis
          using "1.IH"(2) [of info e] s F3 False "1.prems" adv by auto
      qed
      then show ?thesis using s e False F2 "1.prems" by (subst find_loop.simps) auto
    qed
  qed
qed

lemma find_loop_present:
  assumes rh: "robin_hood cap hm slots"
    and p: "p < cap" "occupied (slots ! p)" "key_at slots p = key"
    and j: "j \<le> unat (fst (slots ! p))" "unat probe = j" "i = (hm key + j) mod cap"
  shows "find_loop cap slots key probe i = Inr p"
  using j
proof (induction "unat (fst (slots ! p)) - j" arbitrary: j probe i)
  case 0
  from rh have len: "length slots = cap" and cap: "0 < cap" and con: "constructed slots"
    and pos: "positioned cap hm slots" by (simp_all add: robin_hood_def)
  from 0 have jd: "j = unat (fst (slots ! p))" by simp
  have "p = (hm key + unat (fst (slots ! p))) mod cap"
    using pos p unfolding positioned_def by blast
  then have ip: "i = p" using 0 jd by simp
  have "probe = fst (slots ! p)" using 0 jd by (simp add: word_unat_eq_iff)
  moreover obtain k v where "snd (slots ! p) = Some (k, v)"
    using constructed_nth [OF con, of p] p len by auto
  moreover from this have "k = key" using p(3) by (simp add: key_at_def)
  ultimately show ?case
    using p len ip by (subst find_loop.simps) (auto simp: occupied_def split: prod.splits)
next
  case (Suc m)
  from rh have len: "length slots = cap" and cap: "0 < cap" and con: "constructed slots"
    and pos: "positioned cap hm slots" and ord: "ordered cap slots"
    and uni: "unique_keys cap slots" by (simp_all add: robin_hood_def)
  let ?d = "unat (fst (slots ! p))"
  have jd: "j < ?d" and m: "m = ?d - Suc j" using Suc by simp_all
  have pd: "p = (hm key + ?d) mod cap"
    using pos p unfolding positioned_def by blast
  have i: "i < cap" using Suc.prems cap by simp
  have path: "occupied (slots ! i) \<and> j \<le> unat (fst (slots ! i))"
    using ordered_path [OF ord cap, of "hm key" ?d j] pd p(2) jd Suc.prems by simp
  obtain info e where s: "slots ! i = (info, e)" by (cases "slots ! i")
  have info: "info \<noteq> 255" "\<not> info < probe"
    using path s Suc.prems by (simp_all add: occupied_def word_less_nat_alt)
  then have probe: "unat (probe + 1) = Suc j" using tag_step(2) [of info probe] Suc.prems by simp
  have rec: "find_loop cap slots key (probe + 1) (advance_wrap cap i) = Inr p"
    using Suc.hyps(1) [OF m _ probe] jd Suc.prems(3) advance_wrap_add [OF cap, of "hm key" j]
    by simp
  obtain k v where e: "e = Some (k, v)"
    using constructed_nth [OF con, of i] path s i len by auto
  show ?case
  proof (cases "info = probe \<and> k = key")
    case True
    then have "key_at slots i = key_at slots p" using s e p(3) by (simp add: key_at_def)
    then have "i = p" using uni i p path unfolding unique_keys_def by blast
    then show ?thesis using s e True info i len by (subst find_loop.simps) auto
  next
    case False
    then show ?thesis using s e info i len rec by (subst find_loop.simps) auto
  qed
qed

lemma entries_update:
  "i < length slots \<Longrightarrow>
     mset (entries (slots[i := x])) + (if occupied (slots ! i) then {#the (snd (slots ! i))#} else {#})
       = mset (entries slots) + (if occupied x then {#the (snd x)#} else {#})"
proof (induction slots arbitrary: i)
  case Nil
  then show ?case by simp
next
  case (Cons a slots)
  show ?case
  proof (cases i)
    case 0
    then show ?thesis by (simp add: entries_def)
  next
    case (Suc n)
    then have "n < length slots" using Cons.prems by simp
    from Cons.IH [OF this] show ?thesis using Suc by (auto simp: entries_def split: if_splits)
  qed
qed

lemma length_entries_update:
  assumes "i < length slots"
  shows "length (entries (slots[i := x])) + (if occupied (slots ! i) then 1 else 0)
           = length (entries slots) + (if occupied x then 1 else 0)"
proof -
  have "size (mset (entries (slots[i := x])) + (if occupied (slots ! i) then {#the (snd (slots ! i))#} else {#}))
          = size (mset (entries slots) + (if occupied x then {#the (snd x)#} else {#}))"
    using entries_update [OF assms, of x] by simp
  then show ?thesis by (simp split: if_splits)
qed

lemma entries_mem:
  "kv \<in> set (entries slots) \<longleftrightarrow>
     (\<exists>p < length slots. occupied (slots ! p) \<and> the (snd (slots ! p)) = kv)"
  by (auto simp: entries_def in_set_conv_nth)

lemma insert_loop_count:
  "insert_loop cap slots kv probe i = Inr (slots', r, b) \<Longrightarrow>
     length slots' = length slots \<and> r < length slots \<and>
     length (entries slots') \<le> length (entries slots) + (if b then 1 else 0)"
proof (induction cap slots kv probe i arbitrary: slots' r b rule: insert_loop.induct)
  case (1 cap slots kv probe i)
  from "1.prems" have i: "i < length slots"
    by (subst (asm) insert_loop.simps) (auto split: if_splits)
  obtain info e where s: "slots ! i = (info, e)" by (cases "slots ! i")
  show ?case
  proof (cases "info = 255")
    case True
    then have "slots' = slots[i := (probe, Some kv)]" "b" "r = i"
      using "1.prems" s i by (subst (asm) insert_loop.simps, simp)+
    then show ?thesis
      using length_entries_update [OF i, of "(probe, Some kv)"] s True i
      by (simp add: occupied_def split: if_splits)
  next
    case False
    then obtain r0 where e: "e = Some r0"
      using "1.prems" s i by (subst (asm) insert_loop.simps) (auto split: option.splits)
    show ?thesis
    proof (cases "info = probe \<and> fst r0 = fst kv")
      case True
      then have "slots' = slots" "\<not> b" "r = i"
        using "1.prems" s i e False by (subst (asm) insert_loop.simps, simp)+
      then show ?thesis using i by simp
    next
      case F2: False
      show ?thesis
      proof (cases "info < probe")
        case True
        let ?s1 = "slots[i := (probe, Some kv)]"
        have rec: "insert_loop cap ?s1 r0 (info + 1) (advance_wrap cap i) = Inr (slots', r, b)"
          using "1.prems" s i e False F2 True by (subst (asm) insert_loop.simps) auto
        have "length slots' = length ?s1 \<and> r < length ?s1 \<and>
              length (entries slots') \<le> length (entries ?s1) + (if b then 1 else 0)"
          using "1.IH"(1) [of info e r0] s i e False F2 True rec by auto
        moreover have "length (entries ?s1) \<le> length (entries slots)"
          using length_entries_update [OF i, of "(probe, Some kv)"] s False
          by (simp add: occupied_def split: if_splits)
        ultimately show ?thesis by simp
      next
        case F3: False
        have rec: "insert_loop cap slots kv (probe + 1) (advance_wrap cap i) = Inr (slots', r, b)"
          using "1.prems" s i e False F2 F3 by (subst (asm) insert_loop.simps) auto
        show ?thesis
          using "1.IH"(2) [of info e r0] s i e False F2 F3 rec by auto
      qed
    qed
  qed
qed

lemma constructed_update:
  "constructed slots \<Longrightarrow> (occupied x \<longrightarrow> snd x \<noteq> None) \<Longrightarrow> constructed (slots[i := x])"
  unfolding constructed_def using set_update_subset_insert [of slots i x] by blast

lemma robin_hood_put:
  assumes rh: "robin_hood cap hm slots" and i: "i < cap"
    and fresh: "\<forall>p < cap. occupied (slots ! p) \<longrightarrow> p \<noteq> i \<longrightarrow> key_at slots p \<noteq> fst kv"
    and pos: "i = (hm (fst kv) + unat probe) mod cap"
    and probe: "probe \<noteq> 255"
    and pred: "\<forall>q < cap. advance_wrap cap q = i \<longrightarrow> probe \<noteq> 0 \<longrightarrow> q \<noteq> i \<longrightarrow>
                 occupied (slots ! q) \<and> unat probe \<le> Suc (unat (fst (slots ! q)))"
    and low: "occupied (slots ! i) \<longrightarrow> unat (fst (slots ! i)) \<le> unat probe"
  shows "robin_hood cap hm (slots[i := (probe, Some kv)])"
proof -
  let ?s = "slots[i := (probe, Some kv)]"
  from rh have len: "length slots = cap" and cap: "0 < cap" and hm: "\<forall>k. hm k < cap"
    and con: "constructed slots" and posd: "positioned cap hm slots"
    and ord: "ordered cap slots" and uni: "unique_keys cap slots"
    by (simp_all add: robin_hood_def)
  have at_i: "?s ! i = (probe, Some kv)" using i len by simp
  have other: "\<And>q. q \<noteq> i \<Longrightarrow> ?s ! q = slots ! q" by simp
  have key_i: "key_at ?s i = fst kv" using at_i by (simp add: key_at_def)
  have key_other: "\<And>q. q \<noteq> i \<Longrightarrow> key_at ?s q = key_at slots q" by (simp add: key_at_def)
  have occ_i: "occupied (?s ! i)" using at_i probe by (simp add: occupied_def)
  have "constructed ?s" using con by (rule constructed_update) simp
  moreover have "positioned cap hm ?s"
    unfolding positioned_def
  proof (intro allI impI)
    fix p assume p: "p < cap" "occupied (?s ! p)"
    show "p = (hm (key_at ?s p) + unat (fst (?s ! p))) mod cap"
    proof (cases "p = i")
      case True
      then show ?thesis using pos at_i key_i by simp
    next
      case False
      then show ?thesis using posd p other key_other unfolding positioned_def by simp
    qed
  qed
  moreover have "ordered cap ?s"
    unfolding ordered_def
  proof (intro allI impI)
    fix q assume q: "q < cap"
      and n: "occupied (?s ! advance_wrap cap q) \<and> fst (?s ! advance_wrap cap q) \<noteq> 0"
    let ?n = "advance_wrap cap q"
    show "occupied (?s ! q) \<and> unat (fst (?s ! ?n)) \<le> Suc (unat (fst (?s ! q)))"
    proof (cases "?n = i")
      case True
      then have p0: "probe \<noteq> 0" using n at_i by simp
      show ?thesis
      proof (cases "q = i")
        case True
        then show ?thesis using occ_i \<open>?n = i\<close> by simp
      next
        case False
        then show ?thesis using pred q True p0 other at_i by simp
      qed
    next
      case False
      then have "occupied (slots ! ?n) \<and> fst (slots ! ?n) \<noteq> 0" using n other by simp
      then have o: "occupied (slots ! q) \<and> unat (fst (slots ! ?n)) \<le> Suc (unat (fst (slots ! q)))"
        using ord q unfolding ordered_def by blast
      show ?thesis
      proof (cases "q = i")
        case True
        then show ?thesis using o low occ_i at_i other [OF False] by simp
      next
        case F2: False
        then show ?thesis using o other False by simp
      qed
    qed
  qed
  moreover have "unique_keys cap ?s"
    unfolding unique_keys_def
  proof (intro allI impI)
    fix p q assume pq: "p < cap" "q < cap" "occupied (?s ! p)" "occupied (?s ! q)"
      "key_at ?s p = key_at ?s q"
    show "p = q"
    proof (cases "p = i")
      case True
      show ?thesis
      proof (rule ccontr)
        assume "p \<noteq> q"
        then have "q \<noteq> i" using True by simp
        then show False using fresh pq True key_i key_other other by metis
      qed
    next
      case False
      show ?thesis
      proof (cases "q = i")
        case True
        then show ?thesis using fresh pq False key_i key_other other by metis
      next
        case F2: False
        then show ?thesis using uni pq False other key_other unfolding unique_keys_def by metis
      qed
    qed
  qed
  ultimately show ?thesis using len cap hm by (simp add: robin_hood_def)
qed

lemma insert_loop_robin_hood:
  "insert_loop cap slots kv probe i = Inr (slots', r, b) \<Longrightarrow>
   robin_hood cap hm slots \<Longrightarrow>
   \<forall>p < cap. occupied (slots ! p) \<longrightarrow> key_at slots p \<noteq> fst kv \<Longrightarrow>
   i = (hm (fst kv) + unat probe) mod cap \<Longrightarrow>
   \<forall>q < cap. advance_wrap cap q = i \<longrightarrow> probe \<noteq> 0 \<longrightarrow>
      occupied (slots ! q) \<and> unat probe \<le> Suc (unat (fst (slots ! q))) \<Longrightarrow>
   length (entries slots') = Suc (length (entries slots)) \<Longrightarrow>
   b \<and> robin_hood cap hm slots' \<and> mset (entries slots') = add_mset kv (mset (entries slots))"
proof (induction cap slots kv probe i rule: insert_loop.induct)
  case (1 cap slots kv probe i)
  note res = "1.prems"(1) and rh = "1.prems"(2) and fresh = "1.prems"(3)
    and pos = "1.prems"(4) and pred = "1.prems"(5) and cnt = "1.prems"(6)
  from rh have len: "length slots = cap" and cap: "0 < cap"
    and con: "constructed slots" and posd: "positioned cap hm slots"
    and ord: "ordered cap slots" and uni: "unique_keys cap slots"
    by (simp_all add: robin_hood_def)
  have i: "i < cap" using pos cap by simp
  then have il: "i < length slots" using len by simp
  have adv: "advance_wrap cap i < cap" using i by (rule advance_wrap_less)
  obtain info e where s: "slots ! i = (info, e)" by (cases "slots ! i")
  let ?s1 = "slots[i := (probe, Some kv)]"
  have ent1: "mset (entries ?s1) + (if info \<noteq> 255 then {#the e#} else {#})
                = mset (entries slots) + (if probe \<noteq> 255 then {#kv#} else {#})"
    using entries_update [OF il, of "(probe, Some kv)"] s by (auto simp: occupied_def split: if_splits)
  have len1: "length (entries ?s1) + (if info \<noteq> 255 then 1 else 0)
                = length (entries slots) + (if probe \<noteq> 255 then 1 else 0)"
    using length_entries_update [OF il, of "(probe, Some kv)"] s by (auto simp: occupied_def split: if_splits)
  show ?case
  proof (cases "info = 255")
    case True
    then have out: "slots' = ?s1" "b"
      using res s il by (subst (asm) insert_loop.simps, simp)+
    have probe: "probe \<noteq> 255" using cnt len1 True out by (auto split: if_splits)
    have "robin_hood cap hm ?s1"
      using rh i _ pos probe
    proof (rule robin_hood_put)
      show "\<forall>p<cap. occupied (slots ! p) \<longrightarrow> p \<noteq> i \<longrightarrow> key_at slots p \<noteq> fst kv"
        using fresh by blast
      show "\<forall>q<cap. advance_wrap cap q = i \<longrightarrow> probe \<noteq> 0 \<longrightarrow> q \<noteq> i \<longrightarrow>
              occupied (slots ! q) \<and> unat probe \<le> Suc (unat (fst (slots ! q)))"
        using pred by blast
      show "occupied (slots ! i) \<longrightarrow> unat (fst (slots ! i)) \<le> unat probe"
        using s True by (simp add: occupied_def)
    qed
    then show ?thesis using out ent1 True probe by simp
  next
    case False
    then have occ: "occupied (slots ! i)" using s by (simp add: occupied_def)
    obtain r0 where e: "e = Some r0"
      using res s il False by (subst (asm) insert_loop.simps) (auto split: option.splits)
    have key0: "key_at slots i = fst r0" using s e by (simp add: key_at_def)
    have F2: "\<not> (info = probe \<and> fst r0 = fst kv)" using fresh i occ key0 by auto
    show ?thesis
    proof (cases "info < probe")
      case True
      have rec: "insert_loop cap ?s1 r0 (info + 1) (advance_wrap cap i) = Inr (slots', r, b)"
        using res s il e False F2 True by (subst (asm) insert_loop.simps) auto
      have bound: "length (entries slots') \<le> length (entries ?s1) + 1"
        using insert_loop_count [OF rec] by (simp split: if_splits)
      have probe: "probe \<noteq> 255" using cnt len1 False bound by (auto split: if_splits)
      have cnt1: "length (entries slots') = Suc (length (entries ?s1))"
        using cnt len1 False probe by simp
      have lt: "unat info < unat probe" using True by (simp add: word_less_nat_alt)
      have rh1: "robin_hood cap hm ?s1"
        using rh i _ pos probe
      proof (rule robin_hood_put)
        show "\<forall>p<cap. occupied (slots ! p) \<longrightarrow> p \<noteq> i \<longrightarrow> key_at slots p \<noteq> fst kv"
          using fresh by blast
        show "\<forall>q<cap. advance_wrap cap q = i \<longrightarrow> probe \<noteq> 0 \<longrightarrow> q \<noteq> i \<longrightarrow>
                occupied (slots ! q) \<and> unat probe \<le> Suc (unat (fst (slots ! q)))"
          using pred by blast
        show "occupied (slots ! i) \<longrightarrow> unat (fst (slots ! i)) \<le> unat probe"
          using s lt by simp
      qed
      have fresh1: "\<forall>p<cap. occupied (?s1 ! p) \<longrightarrow> key_at ?s1 p \<noteq> fst r0"
      proof (intro allI impI)
        fix p assume p: "p < cap" "occupied (?s1 ! p)"
        show "key_at ?s1 p \<noteq> fst r0"
        proof (cases "p = i")
          case True
          then show ?thesis using il F2 fresh i occ key0 by (auto simp: key_at_def)
        next
          case F: False
          then have "key_at slots p \<noteq> key_at slots i"
            using uni p i occ unfolding unique_keys_def by auto
          then show ?thesis using F key0 by (simp add: key_at_def)
        qed
      qed
      have suc: "unat (info + 1) = Suc (unat info)" using False by (rule unat_tag_Suc)
      have "i = (hm (key_at slots i) + unat (fst (slots ! i))) mod cap"
        using posd i occ unfolding positioned_def by blast
      then have "i = (hm (fst r0) + unat info) mod cap" using key0 s by simp
      then have pos1: "advance_wrap cap i = (hm (fst r0) + unat (info + 1)) mod cap"
        using advance_wrap_add [OF cap, of "hm (fst r0)" "unat info"] suc by simp
      have pred1: "\<forall>q<cap. advance_wrap cap q = advance_wrap cap i \<longrightarrow> info + 1 \<noteq> 0 \<longrightarrow>
                     occupied (?s1 ! q) \<and> unat (info + 1) \<le> Suc (unat (fst (?s1 ! q)))"
      proof (intro allI impI)
        fix q assume q: "q < cap" "advance_wrap cap q = advance_wrap cap i"
        have "q = i" using q(1) i q(2) by (rule advance_wrap_inj)
        then show "occupied (?s1 ! q) \<and> unat (info + 1) \<le> Suc (unat (fst (?s1 ! q)))"
          using il probe suc lt by (simp add: occupied_def)
      qed
      have "b \<and> robin_hood cap hm slots' \<and> mset (entries slots') = add_mset r0 (mset (entries ?s1))"
      proof (rule "1.IH"(1) [of info e r0, OF _ _ _ _ _ _ rec rh1 fresh1 pos1 pred1 cnt1])
        show "\<not> length slots \<le> i" using il by simp
        show "(info, e) = slots ! i" using s by simp
        show "info \<noteq> 255" by (rule False)
        show "e = Some r0" by (rule e)
        show "\<not> (info = probe \<and> fst r0 = fst kv)" by (rule F2)
        show "info < probe" by (rule True)
      qed
      then show ?thesis using ent1 False probe e by (simp add: add.commute)
    next
      case F3: False
      have rec: "insert_loop cap slots kv (probe + 1) (advance_wrap cap i) = Inr (slots', r, b)"
        using res s il e False F2 F3 by (subst (asm) insert_loop.simps) auto
      have suc: "unat (probe + 1) = Suc (unat probe)" using F3 False by (rule tag_step(2))
      have le: "unat probe \<le> unat info" using F3 by (simp add: word_less_nat_alt)
      have pos1: "advance_wrap cap i = (hm (fst kv) + unat (probe + 1)) mod cap"
        using advance_wrap_add [OF cap, of "hm (fst kv)" "unat probe"] suc pos by simp
      have pred1: "\<forall>q<cap. advance_wrap cap q = advance_wrap cap i \<longrightarrow> probe + 1 \<noteq> 0 \<longrightarrow>
                     occupied (slots ! q) \<and> unat (probe + 1) \<le> Suc (unat (fst (slots ! q)))"
      proof (intro allI impI)
        fix q assume q: "q < cap" "advance_wrap cap q = advance_wrap cap i"
        have "q = i" using q(1) i q(2) by (rule advance_wrap_inj)
        then show "occupied (slots ! q) \<and> unat (probe + 1) \<le> Suc (unat (fst (slots ! q)))"
          using occ s suc le by simp
      qed
      show ?thesis
      proof (rule "1.IH"(2) [of info e r0, OF _ _ _ _ _ _ rec rh fresh pos1 pred1 cnt])
        show "\<not> length slots \<le> i" using il by simp
        show "(info, e) = slots ! i" using s by simp
        show "info \<noteq> 255" by (rule False)
        show "e = Some r0" by (rule e)
        show "\<not> (info = probe \<and> fst r0 = fst kv)" by (rule F2)
        show "\<not> info < probe" by (rule F3)
      qed
    qed
  qed
qed

lemma insert_loop_present:
  assumes rh: "robin_hood cap hm slots"
    and p: "p < cap" "occupied (slots ! p)" "key_at slots p = fst kv"
    and j: "j \<le> unat (fst (slots ! p))" "unat probe = j" "i = (hm (fst kv) + j) mod cap"
  shows "insert_loop cap slots kv probe i = Inr (slots, p, False)"
  using j
proof (induction "unat (fst (slots ! p)) - j" arbitrary: j probe i)
  case 0
  from rh have len: "length slots = cap" and cap: "0 < cap" and con: "constructed slots"
    and pos: "positioned cap hm slots" by (simp_all add: robin_hood_def)
  from 0 have jd: "j = unat (fst (slots ! p))" by simp
  have "p = (hm (fst kv) + unat (fst (slots ! p))) mod cap"
    using pos p unfolding positioned_def by metis
  then have ip: "i = p" using 0 jd by simp
  have "probe = fst (slots ! p)" using 0 jd by (simp add: word_unat_eq_iff)
  moreover obtain k v where "snd (slots ! p) = Some (k, v)"
    using constructed_nth [OF con, of p] p len by auto
  moreover from this have "k = fst kv" using p(3) by (simp add: key_at_def)
  ultimately show ?case
    using p len ip by (subst insert_loop.simps) (auto simp: occupied_def split: prod.splits)
next
  case (Suc m)
  from rh have len: "length slots = cap" and cap: "0 < cap" and con: "constructed slots"
    and pos: "positioned cap hm slots" and ord: "ordered cap slots"
    and uni: "unique_keys cap slots" by (simp_all add: robin_hood_def)
  let ?d = "unat (fst (slots ! p))"
  have jd: "j < ?d" and m: "m = ?d - Suc j" using Suc by simp_all
  have pd: "p = (hm (fst kv) + ?d) mod cap"
    using pos p unfolding positioned_def by metis
  have i: "i < cap" using Suc.prems cap by simp
  have path: "occupied (slots ! i) \<and> j \<le> unat (fst (slots ! i))"
    using ordered_path [OF ord cap, of "hm (fst kv)" ?d j] pd p(2) jd Suc.prems by simp
  obtain info e where s: "slots ! i = (info, e)" by (cases "slots ! i")
  have info: "info \<noteq> 255" "\<not> info < probe"
    using path s Suc.prems by (simp_all add: occupied_def word_less_nat_alt)
  then have probe: "unat (probe + 1) = Suc j" using tag_step(2) [of info probe] Suc.prems by simp
  have rec: "insert_loop cap slots kv (probe + 1) (advance_wrap cap i) = Inr (slots, p, False)"
    using Suc.hyps(1) [OF m _ probe] jd Suc.prems(3) advance_wrap_add [OF cap, of "hm (fst kv)" j]
    by simp
  obtain k v where e: "e = Some (k, v)"
    using constructed_nth [OF con, of i] path s i len by auto
  show ?case
  proof (cases "info = probe \<and> k = fst kv")
    case True
    then have "key_at slots i = key_at slots p" using s e p(3) by (simp add: key_at_def)
    then have "i = p" using uni i p path unfolding unique_keys_def by blast
    then show ?thesis using s e True info i len by (subst insert_loop.simps) auto
  next
    case False
    then show ?thesis using s e info i len rec by (subst insert_loop.simps) auto
  qed
qed

lemma insert_loop_returns:
  "length slots = cap \<Longrightarrow> constructed slots \<Longrightarrow> i < cap \<Longrightarrow>
     \<exists>slots' r b. insert_loop cap slots kv probe i = Inr (slots', r, b) \<and> constructed slots'"
proof (induction cap slots kv probe i rule: insert_loop.induct)
  case (1 cap slots kv probe i)
  have adv: "advance_wrap cap i < cap" using "1.prems"(3) by (rule advance_wrap_less)
  have il: "i < length slots" using "1.prems" by simp
  obtain info e where s: "slots ! i = (info, e)" by (cases "slots ! i")
  have con1: "constructed (slots[i := (probe, Some kv)])"
    using "1.prems"(2) by (rule constructed_update) simp
  show ?case
  proof (cases "info = 255")
    case True
    then show ?thesis using s il con1 by (subst insert_loop.simps) auto
  next
    case False
    then obtain r0 where e: "e = Some r0"
      using constructed_nth [OF "1.prems"(2), of i] il s by (auto simp: occupied_def)
    show ?thesis
    proof (cases "info = probe \<and> fst r0 = fst kv")
      case True
      then show ?thesis using s il e False "1.prems"(2) by (subst insert_loop.simps) auto
    next
      case F2: False
      show ?thesis
      proof (cases "info < probe")
        case True
        have "\<exists>slots' r b. insert_loop cap (slots[i := (probe, Some kv)]) r0 (info + 1)
                 (advance_wrap cap i) = Inr (slots', r, b) \<and> constructed slots'"
        proof (rule "1.IH"(1) [of info e r0])
          show "\<not> length slots \<le> i" using il by simp
          show "(info, e) = slots ! i" using s by simp
          show "info \<noteq> 255" by (rule False)
          show "e = Some r0" by (rule e)
          show "\<not> (info = probe \<and> fst r0 = fst kv)" by (rule F2)
          show "info < probe" by (rule True)
          show "length (slots[i := (probe, Some kv)]) = cap" using "1.prems" by simp
          show "constructed (slots[i := (probe, Some kv)])" by (rule con1)
          show "advance_wrap cap i < cap" by (rule adv)
        qed
        then show ?thesis using s il e False F2 True by (subst insert_loop.simps) auto
      next
        case F3: False
        have "\<exists>slots' r b. insert_loop cap slots kv (probe + 1)
                 (advance_wrap cap i) = Inr (slots', r, b) \<and> constructed slots'"
        proof (rule "1.IH"(2) [of info e r0])
          show "\<not> length slots \<le> i" using il by simp
          show "(info, e) = slots ! i" using s by simp
          show "info \<noteq> 255" by (rule False)
          show "e = Some r0" by (rule e)
          show "\<not> (info = probe \<and> fst r0 = fst kv)" by (rule F2)
          show "\<not> info < probe" by (rule F3)
          show "length slots = cap" using "1.prems" by simp
          show "constructed slots" using "1.prems" by simp
          show "advance_wrap cap i < cap" by (rule adv)
        qed
        then show ?thesis using s il e False F2 F3 by (subst insert_loop.simps) auto
      qed
    qed
  qed
qed

definition hole_inv :: "nat \<Rightarrow> ('k \<Rightarrow> nat) \<Rightarrow> ('k, 'v) slot list \<Rightarrow> nat \<Rightarrow> bool" where
  "hole_inv cap hm s prev \<longleftrightarrow>
     (let h = s[prev := (255, None)]; cur = advance_wrap cap prev in
        length s = cap \<and> (\<forall>k. hm k < cap) \<and> constructed h \<and> positioned cap hm h \<and>
        unique_keys cap h \<and>
        (\<forall>i < cap. i \<noteq> prev \<longrightarrow>
           occupied (h ! advance_wrap cap i) \<and> fst (h ! advance_wrap cap i) \<noteq> 0 \<longrightarrow>
           occupied (h ! i) \<and> unat (fst (h ! advance_wrap cap i)) \<le> Suc (unat (fst (h ! i)))) \<and>
        (\<forall>q < cap. advance_wrap cap q = prev \<longrightarrow> occupied (h ! cur) \<longrightarrow>
           2 \<le> unat (fst (h ! cur)) \<longrightarrow>
           occupied (h ! q) \<and> unat (fst (h ! cur)) \<le> Suc (Suc (unat (fst (h ! q))))))"

lemma advance_wrap_neq: "1 < cap \<Longrightarrow> i < cap \<Longrightarrow> advance_wrap cap i \<noteq> i"
  by (auto simp: advance_wrap_def)

lemma advance_wrap_pred:
  assumes "0 < cap" "q < cap" "advance_wrap cap q = (a + Suc j) mod cap"
  shows "q = (a + j) mod cap"
proof -
  have "advance_wrap cap ((a + j) mod cap) = advance_wrap cap q"
    using advance_wrap_add [OF assms(1), of a j] assms(3) by simp
  moreover have "(a + j) mod cap < cap" using assms(1) by simp
  ultimately show ?thesis using assms(2) advance_wrap_inj by metis
qed

lemma unat_tag_pred_neq: "(d :: 8 word) \<noteq> 0 \<Longrightarrow> d - 1 \<noteq> 255"
proof
  assume d: "d \<noteq> 0" and "d - 1 = 255"
  then have "unat (d - 1) = 255" by simp
  then have "unat d = 256" using unat_tag_pred [OF d] by simp
  then show False using unat_tag_less [of d] by simp
qed

lemma robin_hood_hole:
  assumes rh: "robin_hood cap hm s" and cap: "1 < cap" and p: "p < cap"
  shows "hole_inv cap hm s p"
proof -
  let ?h = "s[p := (255, None)]"
  let ?cur = "advance_wrap cap p"
  from rh have len: "length s = cap" and hm: "\<forall>k. hm k < cap"
    and con: "constructed s" and posd: "positioned cap hm s"
    and ord: "ordered cap s" and uni: "unique_keys cap s"
    by (simp_all add: robin_hood_def)
  have at_p: "?h ! p = (255, None)" using p len by simp
  have other: "\<And>q. q \<noteq> p \<Longrightarrow> ?h ! q = s ! q" by simp
  have nocc: "\<not> occupied (?h ! p)" using at_p by (simp add: occupied_def)
  have key_other: "\<And>q. q \<noteq> p \<Longrightarrow> key_at ?h q = key_at s q" by (simp add: key_at_def)
  have curp: "?cur \<noteq> p" using cap p by (rule advance_wrap_neq)
  have "constructed ?h" using con by (rule constructed_update) (simp add: occupied_def)
  moreover have "positioned cap hm ?h"
    unfolding positioned_def
  proof (intro allI impI)
    fix q assume q: "q < cap" "occupied (?h ! q)"
    then have "q \<noteq> p" using nocc by auto
    then show "q = (hm (key_at ?h q) + unat (fst (?h ! q))) mod cap"
      using posd q other key_other unfolding positioned_def by simp
  qed
  moreover have "unique_keys cap ?h"
    unfolding unique_keys_def
  proof (intro allI impI)
    fix a b assume ab: "a < cap" "b < cap" "occupied (?h ! a)" "occupied (?h ! b)"
      "key_at ?h a = key_at ?h b"
    then have "a \<noteq> p" "b \<noteq> p" using nocc by auto
    then show "a = b" using uni ab other key_other unfolding unique_keys_def by simp
  qed
  moreover have "\<forall>i < cap. i \<noteq> p \<longrightarrow>
           occupied (?h ! advance_wrap cap i) \<and> fst (?h ! advance_wrap cap i) \<noteq> 0 \<longrightarrow>
           occupied (?h ! i) \<and> unat (fst (?h ! advance_wrap cap i)) \<le> Suc (unat (fst (?h ! i)))"
  proof (intro allI impI)
    fix i assume i: "i < cap" "i \<noteq> p"
      and n: "occupied (?h ! advance_wrap cap i) \<and> fst (?h ! advance_wrap cap i) \<noteq> 0"
    then have "advance_wrap cap i \<noteq> p" using nocc by auto
    then show "occupied (?h ! i) \<and> unat (fst (?h ! advance_wrap cap i)) \<le> Suc (unat (fst (?h ! i)))"
      using ord i n other unfolding ordered_def by simp
  qed
  moreover have "\<forall>q < cap. advance_wrap cap q = p \<longrightarrow> occupied (?h ! ?cur) \<longrightarrow>
           2 \<le> unat (fst (?h ! ?cur)) \<longrightarrow>
           occupied (?h ! q) \<and> unat (fst (?h ! ?cur)) \<le> Suc (Suc (unat (fst (?h ! q))))"
  proof (intro allI impI)
    fix q assume q: "q < cap" "advance_wrap cap q = p"
      and c: "occupied (?h ! ?cur)" "2 \<le> unat (fst (?h ! ?cur))"
    have qp: "q \<noteq> p" using advance_wrap_neq [OF cap q(1)] q(2) by auto
    have c': "occupied (s ! ?cur)" "2 \<le> unat (fst (s ! ?cur))" using c curp by simp_all
    then have "fst (s ! ?cur) \<noteq> 0" by auto
    then have 1: "occupied (s ! p) \<and> unat (fst (s ! ?cur)) \<le> Suc (unat (fst (s ! p)))"
      using ord p c' unfolding ordered_def by blast
    then have "fst (s ! p) \<noteq> 0" using c' by auto
    then have 2: "occupied (s ! q) \<and> unat (fst (s ! p)) \<le> Suc (unat (fst (s ! q)))"
      using ord q 1 unfolding ordered_def by metis
    show "occupied (?h ! q) \<and> unat (fst (?h ! ?cur)) \<le> Suc (Suc (unat (fst (?h ! q))))"
      using 1 2 qp curp by simp
  qed
  ultimately show ?thesis using len hm by (simp add: hole_inv_def Let_def)
qed

lemma hole_inv_step:
  assumes inv: "hole_inv cap hm s prev" and cap: "1 < cap" and prev: "prev < cap"
    and cur: "cur = advance_wrap cap prev"
    and d0: "fst (s ! cur) \<noteq> 0" and d255: "fst (s ! cur) \<noteq> 255"
  shows "hole_inv cap hm (shift_back s prev cur) cur \<and>
         mset (entries ((shift_back s prev cur)[cur := (255, None)]))
           = mset (entries (s[prev := (255, None)]))"
proof -
  let ?E = "(255 :: 8 word, None :: ('a \<times> 'b) option)"
  let ?h = "s[prev := ?E]"
  let ?d = "fst (s ! cur)" and ?e = "snd (s ! cur)"
  let ?h' = "s[prev := (?d - 1, ?e), cur := ?E]"
  let ?cur' = "advance_wrap cap cur"
  from inv have len: "length s = cap" and hm: "\<forall>k. hm k < cap"
    and con: "constructed ?h" and posd: "positioned cap hm ?h" and uni: "unique_keys cap ?h"
    and ord: "\<forall>i < cap. i \<noteq> prev \<longrightarrow>
           occupied (?h ! advance_wrap cap i) \<and> fst (?h ! advance_wrap cap i) \<noteq> 0 \<longrightarrow>
           occupied (?h ! i) \<and> unat (fst (?h ! advance_wrap cap i)) \<le> Suc (unat (fst (?h ! i)))"
    and bridge: "\<forall>q < cap. advance_wrap cap q = prev \<longrightarrow> occupied (?h ! cur) \<longrightarrow>
           2 \<le> unat (fst (?h ! cur)) \<longrightarrow>
           occupied (?h ! q) \<and> unat (fst (?h ! cur)) \<le> Suc (Suc (unat (fst (?h ! q))))"
    unfolding hole_inv_def Let_def cur by blast+
  have c: "cur < cap" using prev cur by (simp add: advance_wrap_less)
  have cp: "cur \<noteq> prev" using advance_wrap_neq [OF cap prev] cur by simp
  have c'c: "?cur' \<noteq> cur" using advance_wrap_neq [OF cap c] .
  have c': "?cur' < cap" using c by (rule advance_wrap_less)
  have sb: "(shift_back s prev cur)[cur := ?E] = ?h'"
    using prev c len cp by (simp add: shift_back_eq list_update_swap [of cur prev])
  have h_cur: "?h ! cur = s ! cur" using cp by simp
  have h_prev: "?h ! prev = ?E" using prev len by simp
  have h'_prev: "?h' ! prev = (?d - 1, ?e)" using prev len cp by simp
  have h'_cur: "?h' ! cur = ?E" using c len by simp
  have h'_other: "\<And>x. x \<noteq> prev \<Longrightarrow> x \<noteq> cur \<Longrightarrow> ?h' ! x = ?h ! x" by simp
  have occ_cur: "occupied (?h ! cur)" using h_cur d255 by (simp add: occupied_def)
  have occ'_prev: "occupied (?h' ! prev)"
    using h'_prev unat_tag_pred_neq [OF d0] by (simp add: occupied_def)
  have nocc'_cur: "\<not> occupied (?h' ! cur)" using h'_cur by (simp add: occupied_def)
  have nocc_prev: "\<not> occupied (?h ! prev)" using h_prev by (simp add: occupied_def)
  have dpred: "Suc (unat (?d - 1)) = unat ?d" using d0 by (rule unat_tag_pred)
  have key'_prev: "key_at ?h' prev = key_at ?h cur"
    using h'_prev h_cur by (simp add: key_at_def)
  have key'_other: "\<And>x. x \<noteq> prev \<Longrightarrow> x \<noteq> cur \<Longrightarrow> key_at ?h' x = key_at ?h x"
    by (simp add: key_at_def)
  have e_some: "?e \<noteq> None"
    using con occ_cur c len h_cur unfolding constructed_def
    by (metis length_list_update nth_mem)
  have ent: "mset (entries ?h') = mset (entries ?h)"
  proof -
    let ?m = "s[prev := (?d - 1, ?e)]"
    have 1: "mset (entries ?m) + (if occupied (s ! prev) then {#the (snd (s ! prev))#} else {#})
               = mset (entries s) + {#the ?e#}"
      using entries_update [of prev s "(?d - 1, ?e)"] prev len occ'_prev h'_prev by simp
    have 2: "mset (entries ?h) + (if occupied (s ! prev) then {#the (snd (s ! prev))#} else {#})
               = mset (entries s)"
      using entries_update [of prev s ?E] prev len by (simp add: occupied_def)
    have "?m ! cur = s ! cur" using cp by simp
    then have 3: "mset (entries ?h') + {#the ?e#} = mset (entries ?m)"
      using entries_update [of cur ?m ?E] c len d255 by (simp add: occupied_def)
    define X where "X = (if occupied (s ! prev) then {#the (snd (s ! prev))#} else {#})"
    define A where "A = mset (entries ?h')"
    define B where "B = mset (entries ?h)"
    define M where "M = mset (entries ?m)"
    define S where "S = mset (entries s)"
    have a: "M + X = S + {#the ?e#}" using 1 by (simp only: X_def M_def S_def)
    have b: "B + X = S" using 2 by (simp only: X_def B_def S_def)
    have c3: "A + {#the ?e#} = M" using 3 by (simp only: A_def M_def)
    have "A + {#the ?e#} + X = B + X + {#the ?e#}" using a b c3 by simp
    then have "A = B" by simp
    then show ?thesis by (simp only: A_def B_def)
  qed
  have C: "constructed ?h'"
  proof -
    have "constructed (s[prev := (?d - 1, ?e)])"
      unfolding constructed_def
    proof (intro ballI impI)
      fix x assume x: "x \<in> set (s[prev := (?d - 1, ?e)])" "occupied x"
      then obtain n where n: "n < cap" "x = s[prev := (?d - 1, ?e)] ! n"
        using len by (auto simp: in_set_conv_nth)
      show "snd x \<noteq> None"
      proof (cases "n = prev")
        case True
        then show ?thesis using n e_some prev len by simp
      next
        case False
        then have "x = ?h ! n" using n by simp
        then show ?thesis using con x n len unfolding constructed_def
          by (metis length_list_update nth_mem)
      qed
    qed
    then show ?thesis by (rule constructed_update) (simp add: occupied_def)
  qed
  have P: "positioned cap hm ?h'"
    unfolding positioned_def
  proof (intro allI impI)
    fix p assume p: "p < cap" "occupied (?h' ! p)"
    then have pc: "p \<noteq> cur" using nocc'_cur by auto
    show "p = (hm (key_at ?h' p) + unat (fst (?h' ! p))) mod cap"
    proof (cases "p = prev")
      case True
      have "cur = (hm (key_at ?h cur) + unat (fst (?h ! cur))) mod cap"
        using posd c occ_cur unfolding positioned_def by blast
      then have "advance_wrap cap prev = (hm (key_at ?h cur) + Suc (unat (?d - 1))) mod cap"
        using cur dpred h_cur by simp
      then have "prev = (hm (key_at ?h cur) + unat (?d - 1)) mod cap"
        using advance_wrap_pred [of cap prev] cap prev by simp
      then show ?thesis using True key'_prev h'_prev by simp
    next
      case False
      then have "occupied (?h ! p)" using p pc h'_other by simp
      then have "p = (hm (key_at ?h p) + unat (fst (?h ! p))) mod cap"
        using posd p unfolding positioned_def by blast
      then show ?thesis using False pc h'_other key'_other by simp
    qed
  qed
  have U: "unique_keys cap ?h'"
    unfolding unique_keys_def
  proof (intro allI impI)
    fix a b assume ab: "a < cap" "b < cap" "occupied (?h' ! a)" "occupied (?h' ! b)"
      "key_at ?h' a = key_at ?h' b"
    then have nc: "a \<noteq> cur" "b \<noteq> cur" using nocc'_cur by auto
    define f where "f x = (if x = prev then cur else x)" for x
    have occf: "occupied (?h ! f x)" if "x < cap" "x \<noteq> cur" "occupied (?h' ! x)" for x
    proof (cases "x = prev")
      case True
      then have fx: "f x = cur" by (simp add: f_def)
      show ?thesis unfolding fx by (rule occ_cur)
    next
      case False
      then have fx: "f x = x" by (simp add: f_def)
      have "?h' ! x = ?h ! x" using False that(2) by (rule h'_other)
      then show ?thesis unfolding fx using that(3) by simp
    qed
    have keyf: "\<And>x. x \<noteq> cur \<Longrightarrow> key_at ?h' x = key_at ?h (f x)"
      using key'_prev key'_other by (simp add: f_def)
    have flt: "\<And>x. x < cap \<Longrightarrow> f x < cap" using c by (simp add: f_def)
    have "f a = f b"
      using uni flt [OF ab(1)] flt [OF ab(2)] occf [OF ab(1) nc(1) ab(3)] occf [OF ab(2) nc(2) ab(4)]
        keyf [OF nc(1)] keyf [OF nc(2)] ab(5) unfolding unique_keys_def by metis
    then show "a = b" using nc by (auto simp: f_def split: if_splits)
  qed
  have O: "\<forall>i < cap. i \<noteq> cur \<longrightarrow>
           occupied (?h' ! advance_wrap cap i) \<and> fst (?h' ! advance_wrap cap i) \<noteq> 0 \<longrightarrow>
           occupied (?h' ! i) \<and> unat (fst (?h' ! advance_wrap cap i)) \<le> Suc (unat (fst (?h' ! i)))"
  proof (intro allI impI)
    fix i assume i: "i < cap" "i \<noteq> cur"
      and n: "occupied (?h' ! advance_wrap cap i) \<and> fst (?h' ! advance_wrap cap i) \<noteq> 0"
    let ?n = "advance_wrap cap i"
    have ncur: "?n \<noteq> cur" using n nocc'_cur by auto
    then have ip: "i \<noteq> prev" using cur by auto
    have hi: "?h' ! i = ?h ! i" using i ip h'_other by simp
    show "occupied (?h' ! i) \<and> unat (fst (?h' ! ?n)) \<le> Suc (unat (fst (?h' ! i)))"
    proof (cases "?n = prev")
      case True
      then have "unat (?d - 1) \<noteq> 0" using n h'_prev by (simp add: unat_eq_0)
      then have "2 \<le> unat (fst (?h ! cur))" using dpred h_cur by simp
      then have "occupied (?h ! i) \<and> unat (fst (?h ! cur)) \<le> Suc (Suc (unat (fst (?h ! i))))"
        using bridge i True occ_cur by blast
      then show ?thesis using hi True h'_prev h_cur dpred by simp
    next
      case False
      then have "?h' ! ?n = ?h ! ?n" using ncur h'_other by simp
      then show ?thesis using ord i ip n hi by simp
    qed
  qed
  have B: "\<forall>q < cap. advance_wrap cap q = cur \<longrightarrow> occupied (?h' ! ?cur') \<longrightarrow>
           2 \<le> unat (fst (?h' ! ?cur')) \<longrightarrow>
           occupied (?h' ! q) \<and> unat (fst (?h' ! ?cur')) \<le> Suc (Suc (unat (fst (?h' ! q))))"
  proof (intro allI impI)
    fix q assume q: "q < cap" "advance_wrap cap q = cur"
      and o: "occupied (?h' ! ?cur')" "2 \<le> unat (fst (?h' ! ?cur'))"
    have qp: "q = prev" using q(1) prev q(2) [unfolded cur] by (rule advance_wrap_inj)
    show "occupied (?h' ! q) \<and> unat (fst (?h' ! ?cur')) \<le> Suc (Suc (unat (fst (?h' ! q))))"
    proof (cases "?cur' = prev")
      case True
      then show ?thesis using qp occ'_prev by simp
    next
      case False
      then have eq: "?h' ! ?cur' = ?h ! ?cur'" using c'c h'_other by simp
      then have "occupied (?h ! ?cur') \<and> fst (?h ! ?cur') \<noteq> 0" using o by auto
      then have "unat (fst (?h ! ?cur')) \<le> Suc (unat (fst (?h ! cur)))"
        using ord c cp by blast
      then show ?thesis using qp occ'_prev eq h'_prev h_cur dpred by simp
    qed
  qed
  have lens: "length (shift_back s prev cur) = cap"
    using prev c len cp by (simp add: shift_back_eq)
  have "hole_inv cap hm (shift_back s prev cur) cur"
    unfolding hole_inv_def Let_def sb
    using lens hm C P U O B by blast
  then show ?thesis using sb ent by simp
qed

lemma hole_inv_stop:
  assumes inv: "hole_inv cap hm s prev" and cap: "1 < cap" and prev: "prev < cap"
    and stop: "\<not> (fst (s ! advance_wrap cap prev) \<noteq> 0 \<and> fst (s ! advance_wrap cap prev) \<noteq> 255)"
  shows "robin_hood cap hm (s[prev := (255, None)])"
proof -
  let ?h = "s[prev := (255, None)]"
  let ?cur = "advance_wrap cap prev"
  from inv have len: "length s = cap" and hm: "\<forall>k. hm k < cap"
    and con: "constructed ?h" and posd: "positioned cap hm ?h" and uni: "unique_keys cap ?h"
    and ord: "\<forall>i < cap. i \<noteq> prev \<longrightarrow>
           occupied (?h ! advance_wrap cap i) \<and> fst (?h ! advance_wrap cap i) \<noteq> 0 \<longrightarrow>
           occupied (?h ! i) \<and> unat (fst (?h ! advance_wrap cap i)) \<le> Suc (unat (fst (?h ! i)))"
    unfolding hole_inv_def Let_def by blast+
  have cp: "?cur \<noteq> prev" using cap prev by (rule advance_wrap_neq)
  then have h_cur: "?h ! ?cur = s ! ?cur" by simp
  have "ordered cap ?h"
    unfolding ordered_def
  proof (intro allI impI)
    fix i assume i: "i < cap"
      and n: "occupied (?h ! advance_wrap cap i) \<and> fst (?h ! advance_wrap cap i) \<noteq> 0"
    have "i \<noteq> prev"
    proof
      assume "i = prev"
      then show False using n stop h_cur by (simp add: occupied_def)
    qed
    then show "occupied (?h ! i) \<and> unat (fst (?h ! advance_wrap cap i)) \<le> Suc (unat (fst (?h ! i)))"
      using ord i n by blast
  qed
  then show ?thesis using len hm con posd uni cap by (simp add: robin_hood_def)
qed

lemma erase_loop_robin_hood:
  "erase_loop cap s prev cur = Inr s' \<Longrightarrow> cur = advance_wrap cap prev \<Longrightarrow>
   hole_inv cap hm s prev \<Longrightarrow> 1 < cap \<Longrightarrow> prev < cap \<Longrightarrow>
   robin_hood cap hm s' \<and> mset (entries s') = mset (entries (s[prev := (255, None)]))"
proof (induction cap s prev cur rule: erase_loop.induct)
  case (1 cap s prev cur)
  note res = "1.prems"(1) and cur = "1.prems"(2) and inv = "1.prems"(3)
    and cap = "1.prems"(4) and prev = "1.prems"(5)
  have len: "length s = cap" using inv unfolding hole_inv_def Let_def by blast
  have c: "cur < cap" using prev cur by (simp add: advance_wrap_less)
  have nb: "\<not> (length s \<le> prev \<or> length s \<le> cur)" using len prev c by simp
  show ?case
  proof (cases "fst (s ! cur) \<noteq> 0 \<and> fst (s ! cur) \<noteq> 255")
    case True
    have rec: "erase_loop cap (shift_back s prev cur) (advance_wrap cap prev) (advance_wrap cap cur) = Inr s'"
      using res nb True by (subst (asm) erase_loop.simps) simp
    have step: "hole_inv cap hm (shift_back s prev cur) cur \<and>
         mset (entries ((shift_back s prev cur)[cur := (255, None)]))
           = mset (entries (s[prev := (255, None)]))"
      using inv cap prev cur True by (intro hole_inv_step) simp_all
    have "robin_hood cap hm s' \<and>
          mset (entries s') = mset (entries ((shift_back s prev cur)[cur := (255, None)]))"
      using "1.IH" [OF nb True] rec step cap c cur by simp
    then show ?thesis using step by simp
  next
    case False
    then have "s' = s[prev := (255, None)]"
      using res nb by (subst (asm) erase_loop.simps) auto
    then show ?thesis using hole_inv_stop [OF inv cap prev] False cur by simp
  qed
qed

lemma shift_back_nth:
  assumes "prev < length s" "cur < length s" "prev \<noteq> cur"
  shows "shift_back s prev cur ! prev = (fst (s ! cur) - 1, snd (s ! cur))"
    and "shift_back s prev cur ! cur = s ! prev"
    and "length (shift_back s prev cur) = length s"
  using assms by (simp_all add: shift_back_eq)

lemma erase_loop_count:
  "erase_loop cap s prev cur = Inr s' \<Longrightarrow> length s = cap \<Longrightarrow> prev < cap \<Longrightarrow>
   cur = advance_wrap cap prev \<Longrightarrow> 1 < cap \<Longrightarrow> occupied (s ! prev) \<Longrightarrow> constructed s \<Longrightarrow>
   length s' = cap \<and> constructed s' \<and> Suc (length (entries s')) = length (entries s)"
proof (induction cap s prev cur rule: erase_loop.induct)
  case (1 cap s prev cur)
  note res = "1.prems"(1) and len = "1.prems"(2) and prev = "1.prems"(3) and cur = "1.prems"(4)
    and cap = "1.prems"(5) and occ = "1.prems"(6) and con = "1.prems"(7)
  have c: "cur < cap" using prev cur by (simp add: advance_wrap_less)
  have cp: "prev \<noteq> cur" using advance_wrap_neq [OF cap prev] cur by simp
  have nb: "\<not> (length s \<le> prev \<or> length s \<le> cur)" using len prev c by simp
  show ?case
  proof (cases "fst (s ! cur) \<noteq> 0 \<and> fst (s ! cur) \<noteq> 255")
    case True
    let ?s1 = "shift_back s prev cur"
    have rec: "erase_loop cap ?s1 (advance_wrap cap prev) (advance_wrap cap cur) = Inr s'"
      using res nb True by (subst (asm) erase_loop.simps) simp
    have eq: "?s1 = s[cur := s ! prev, prev := (fst (s ! cur) - 1, snd (s ! cur))]"
      using prev c len cp by (simp add: shift_back_eq)
    have occ_new: "occupied (fst (s ! cur) - 1, snd (s ! cur))"
      using True unat_tag_pred_neq by (auto simp: occupied_def)
    have occ_cur: "occupied (s ! cur)" using True by (simp add: occupied_def)
    have "snd (s ! cur) \<noteq> None"
      using con occ_cur c len unfolding constructed_def by (metis nth_mem)
    then have con1: "constructed ?s1"
      unfolding eq using con occ len prev
      by (intro constructed_update) (auto simp: constructed_def occupied_def dest: nth_mem)
    have l1: "length (entries (s[cur := s ! prev])) = length (entries s)"
      using length_entries_update [of cur s "s ! prev"] c len occ occ_cur by simp
    have "(s[cur := s ! prev]) ! prev = s ! prev" using cp by simp
    then have l2: "length (entries ?s1) = length (entries (s[cur := s ! prev]))"
      unfolding eq
      using length_entries_update [of prev "s[cur := s ! prev]" "(fst (s ! cur) - 1, snd (s ! cur))"]
        prev len occ occ_new by simp
    have "length s' = cap \<and> constructed s' \<and> Suc (length (entries s')) = length (entries ?s1)"
    proof (rule "1.IH" [OF nb True rec])
      show "length ?s1 = cap" using eq len by simp
      show "advance_wrap cap prev < cap" using prev by (rule advance_wrap_less)
      show "advance_wrap cap cur = advance_wrap cap (advance_wrap cap prev)" using cur by simp
      show "1 < cap" by (rule cap)
      show "occupied (?s1 ! advance_wrap cap prev)"
        using shift_back_nth(2) [of prev s cur] prev c len cp occ cur by simp
      show "constructed ?s1" by (rule con1)
    qed
    then show ?thesis using l1 l2 by simp
  next
    case False
    then have s': "s' = s[prev := (255, None)]"
      using res nb by (subst (asm) erase_loop.simps) auto
    have "constructed s'" unfolding s' using con by (rule constructed_update) (simp add: occupied_def)
    moreover have "Suc (length (entries s')) = length (entries s)"
      unfolding s' using length_entries_update [of prev s "(255, None)"] prev len occ
      by (simp add: occupied_def)
    ultimately show ?thesis using s' len by simp
  qed
qed

lemma erase_loop_returns:
  "length s = cap \<Longrightarrow> prev < cap \<Longrightarrow> cur < cap \<Longrightarrow> \<exists>s'. erase_loop cap s prev cur = Inr s'"
proof (induction cap s prev cur rule: erase_loop.induct)
  case (1 cap s prev cur)
  have nb: "\<not> (length s \<le> prev \<or> length s \<le> cur)" using "1.prems" by simp
  show ?case
  proof (cases "fst (s ! cur) \<noteq> 0 \<and> fst (s ! cur) \<noteq> 255")
    case True
    have "length (shift_back s prev cur) = cap"
      using "1.prems" by (simp add: shift_back_def Let_def)
    then have "\<exists>s'. erase_loop cap (shift_back s prev cur) (advance_wrap cap prev)
                 (advance_wrap cap cur) = Inr s'"
      using "1.IH" [OF nb True] "1.prems" advance_wrap_less by blast
    then show ?thesis using nb True by (subst erase_loop.simps) simp
  next
    case False
    then show ?thesis using nb by (subst erase_loop.simps) auto
  qed
qed

lemma probe_swap_inv:
  assumes rh: "robin_hood cap hm slots"
    and fresh: "\<forall>p < cap. occupied (slots ! p) \<longrightarrow> key_at slots p \<noteq> fst kv"
    and pos: "i = (hm (fst kv) + unat probe) mod cap"
    and pred: "\<forall>q < cap. advance_wrap cap q = i \<longrightarrow> probe \<noteq> 0 \<longrightarrow>
      occupied (slots ! q) \<and> unat probe \<le> Suc (unat (fst (slots ! q)))"
    and s: "slots ! i = (info, Some r0)" and info: "info \<noteq> 255" "info < probe"
    and probe: "probe \<noteq> 255"
  shows "robin_hood cap hm (slots[i := (probe, Some kv)])"
    and "\<forall>p < cap. occupied (slots[i := (probe, Some kv)] ! p) \<longrightarrow>
           key_at (slots[i := (probe, Some kv)]) p \<noteq> fst r0"
    and "advance_wrap cap i = (hm (fst r0) + unat (info + 1)) mod cap"
    and "\<forall>q < cap. advance_wrap cap q = advance_wrap cap i \<longrightarrow> info + 1 \<noteq> 0 \<longrightarrow>
           occupied (slots[i := (probe, Some kv)] ! q) \<and>
           unat (info + 1) \<le> Suc (unat (fst (slots[i := (probe, Some kv)] ! q)))"
proof -
  let ?s1 = "slots[i := (probe, Some kv)]"
  from rh have len: "length slots = cap" and cap: "0 < cap"
    and posd: "positioned cap hm slots" and uni: "unique_keys cap slots"
    by (simp_all add: robin_hood_def)
  have i: "i < cap" using pos cap by simp
  then have il: "i < length slots" using len by simp
  have occ: "occupied (slots ! i)" using s info by (simp add: occupied_def)
  have key0: "key_at slots i = fst r0" using s by (simp add: key_at_def)
  have lt: "unat info < unat probe" using info(2) by (simp add: word_less_nat_alt)
  show "robin_hood cap hm ?s1"
    using rh i _ pos probe
  proof (rule robin_hood_put)
    show "\<forall>p<cap. occupied (slots ! p) \<longrightarrow> p \<noteq> i \<longrightarrow> key_at slots p \<noteq> fst kv"
      using fresh by blast
    show "\<forall>q<cap. advance_wrap cap q = i \<longrightarrow> probe \<noteq> 0 \<longrightarrow> q \<noteq> i \<longrightarrow>
            occupied (slots ! q) \<and> unat probe \<le> Suc (unat (fst (slots ! q)))"
      using pred by blast
    show "occupied (slots ! i) \<longrightarrow> unat (fst (slots ! i)) \<le> unat probe"
      using s lt by simp
  qed
  show "\<forall>p<cap. occupied (?s1 ! p) \<longrightarrow> key_at ?s1 p \<noteq> fst r0"
  proof (intro allI impI)
    fix p assume p: "p < cap" "occupied (?s1 ! p)"
    show "key_at ?s1 p \<noteq> fst r0"
    proof (cases "p = i")
      case True
      then show ?thesis using il fresh i occ key0 by (auto simp: key_at_def)
    next
      case F: False
      then have "key_at slots p \<noteq> key_at slots i"
        using uni p i occ unfolding unique_keys_def by auto
      then show ?thesis using F key0 by (simp add: key_at_def)
    qed
  qed
  have suc: "unat (info + 1) = Suc (unat info)" using info(1) by (rule unat_tag_Suc)
  have "i = (hm (key_at slots i) + unat (fst (slots ! i))) mod cap"
    using posd i occ unfolding positioned_def by blast
  then have "i = (hm (fst r0) + unat info) mod cap" using key0 s by simp
  then show "advance_wrap cap i = (hm (fst r0) + unat (info + 1)) mod cap"
    using advance_wrap_add [OF cap, of "hm (fst r0)" "unat info"] suc by simp
  show "\<forall>q<cap. advance_wrap cap q = advance_wrap cap i \<longrightarrow> info + 1 \<noteq> 0 \<longrightarrow>
          occupied (?s1 ! q) \<and> unat (info + 1) \<le> Suc (unat (fst (?s1 ! q)))"
  proof (intro allI impI)
    fix q assume q: "q < cap" "advance_wrap cap q = advance_wrap cap i"
    have "q = i" using q(1) i q(2) by (rule advance_wrap_inj)
    then show "occupied (?s1 ! q) \<and> unat (info + 1) \<le> Suc (unat (fst (?s1 ! q)))"
      using il probe suc lt by (simp add: occupied_def)
  qed
qed

lemma probe_advance_inv:
  assumes cap: "0 < cap" and i: "i < cap"
    and pos: "i = (hm (fst kv) + unat probe) mod cap"
    and s: "slots ! i = (info, e)" and info: "info \<noteq> 255" "\<not> info < probe"
  shows "advance_wrap cap i = (hm (fst kv) + unat (probe + 1)) mod cap"
    and "\<forall>q < cap. advance_wrap cap q = advance_wrap cap i \<longrightarrow> probe + 1 \<noteq> 0 \<longrightarrow>
           occupied (slots ! q) \<and> unat (probe + 1) \<le> Suc (unat (fst (slots ! q)))"
proof -
  have suc: "unat (probe + 1) = Suc (unat probe)" using info(2,1) by (rule tag_step(2))
  have le: "unat probe \<le> unat info" using info(2) by (simp add: word_less_nat_alt)
  show "advance_wrap cap i = (hm (fst kv) + unat (probe + 1)) mod cap"
    using advance_wrap_add [OF cap, of "hm (fst kv)" "unat probe"] suc pos by simp
  show "\<forall>q<cap. advance_wrap cap q = advance_wrap cap i \<longrightarrow> probe + 1 \<noteq> 0 \<longrightarrow>
          occupied (slots ! q) \<and> unat (probe + 1) \<le> Suc (unat (fst (slots ! q)))"
  proof (intro allI impI)
    fix q assume q: "q < cap" "advance_wrap cap q = advance_wrap cap i"
    have "q = i" using q(1) i q(2) by (rule advance_wrap_inj)
    then show "occupied (slots ! q) \<and> unat (probe + 1) \<le> Suc (unat (fst (slots ! q)))"
      using s info(1) suc le by (simp add: occupied_def)
  qed
qed

lemma insert_loop_not_found:
  "insert_loop cap slots kv probe i = Inr (slots', r, b) \<Longrightarrow>
   robin_hood cap hm slots \<Longrightarrow>
   \<forall>p < cap. occupied (slots ! p) \<longrightarrow> key_at slots p \<noteq> fst kv \<Longrightarrow>
   i = (hm (fst kv) + unat probe) mod cap \<Longrightarrow>
   \<forall>q < cap. advance_wrap cap q = i \<longrightarrow> probe \<noteq> 0 \<longrightarrow>
      occupied (slots ! q) \<and> unat probe \<le> Suc (unat (fst (slots ! q))) \<Longrightarrow>
   \<not> b \<Longrightarrow> length (entries slots') < length (entries slots)"
proof (induction cap slots kv probe i rule: insert_loop.induct)
  case (1 cap slots kv probe i)
  note res = "1.prems"(1) and rh = "1.prems"(2) and fresh = "1.prems"(3)
    and pos = "1.prems"(4) and pred = "1.prems"(5) and nb = "1.prems"(6)
  from rh have len: "length slots = cap" and cap: "0 < cap" by (simp_all add: robin_hood_def)
  have i: "i < cap" using pos cap by simp
  then have il: "i < length slots" using len by simp
  obtain info e where s: "slots ! i = (info, e)" by (cases "slots ! i")
  let ?s1 = "slots[i := (probe, Some kv)]"
  have len1: "length (entries ?s1) + (if info \<noteq> 255 then 1 else 0)
                = length (entries slots) + (if probe \<noteq> 255 then 1 else 0)"
    using length_entries_update [OF il, of "(probe, Some kv)"] s
    by (auto simp: occupied_def split: if_splits)
  show ?case
  proof (cases "info = 255")
    case True
    then have "b" using res s il by (subst (asm) insert_loop.simps) simp
    then show ?thesis using nb by simp
  next
    case False
    then have occ: "occupied (slots ! i)" using s by (simp add: occupied_def)
    obtain r0 where e: "e = Some r0"
      using res s il False by (subst (asm) insert_loop.simps) (auto split: option.splits)
    have key0: "key_at slots i = fst r0" using s e by (simp add: key_at_def)
    have F2: "\<not> (info = probe \<and> fst r0 = fst kv)" using fresh i occ key0 by auto
    show ?thesis
    proof (cases "info < probe")
      case True
      have rec: "insert_loop cap ?s1 r0 (info + 1) (advance_wrap cap i) = Inr (slots', r, b)"
        using res s il e False F2 True by (subst (asm) insert_loop.simps) auto
      show ?thesis
      proof (cases "probe = 255")
        case P: True
        have "length (entries slots') \<le> length (entries ?s1)"
          using insert_loop_count [OF rec] nb by simp
        moreover have "length (entries ?s1) < length (entries slots)"
          using len1 False P by simp
        ultimately show ?thesis by simp
      next
        case P: False
        note st = probe_swap_inv [where hm = hm and kv = kv, OF rh fresh pos pred s [unfolded e] False True P]
        have "length (entries slots') < length (entries ?s1)"
        proof (rule "1.IH"(1) [of info e r0, OF _ _ _ _ _ _ rec st nb])
          show "\<not> length slots \<le> i" using il by simp
          show "(info, e) = slots ! i" using s by simp
          show "info \<noteq> 255" by (rule False)
          show "e = Some r0" by (rule e)
          show "\<not> (info = probe \<and> fst r0 = fst kv)" by (rule F2)
          show "info < probe" by (rule True)
        qed
        then show ?thesis using len1 False P by simp
      qed
    next
      case F3: False
      have rec: "insert_loop cap slots kv (probe + 1) (advance_wrap cap i) = Inr (slots', r, b)"
        using res s il e False F2 F3 by (subst (asm) insert_loop.simps) auto
      note st = probe_advance_inv [where hm = hm and kv = kv, OF cap i pos s False F3]
      show ?thesis
      proof (rule "1.IH"(2) [of info e r0, OF _ _ _ _ _ _ rec rh fresh st nb])
        show "\<not> length slots \<le> i" using il by simp
        show "(info, e) = slots ! i" using s by simp
        show "info \<noteq> 255" by (rule False)
        show "e = Some r0" by (rule e)
        show "\<not> (info = probe \<and> fst r0 = fst kv)" by (rule F2)
        show "\<not> info < probe" by (rule F3)
      qed
    qed
  qed
qed

definition is_pow2 :: "nat \<Rightarrow> bool" where
  "is_pow2 n \<longleftrightarrow> (\<exists>k. n = 2 ^ k)"

text \<open>
  What every table has that the constructor returned and \<open>insert\<close> and \<open>erase\<close> changed:
  the buffer has \<open>m_capacity\<close> slots, capacity and growth factor are powers of two, the
  derived members fit the capacity, the size is below \<open>m_max_elems\<close>, and no more slots
  are occupied than \<open>m_size\<close> counts.
\<close>

definition well_formed :: "('k, 'v) unordered_map \<Rightarrow> bool" where
  "well_formed t \<longleftrightarrow>
     length (m_slots t) = m_capacity t \<and> is_pow2 (m_capacity t) \<and> 2 \<le> m_capacity t \<and>
     m_capacity t < 2 ^ 64 \<and> m_capacity_dec t = m_capacity t - 1 \<and>
     is_pow2 (GROWTH_FACTOR t) \<and> 2 \<le> GROWTH_FACTOR t \<and> 0 \<le> LOAD_FACTOR t \<and>
     m_max_elems t = nat \<lfloor>real (m_capacity t) * LOAD_FACTOR t\<rfloor> \<and>
     m_max_elems t < 2 ^ 64 \<and> m_size t < m_max_elems t \<and>
     constructed (m_slots t) \<and> length (entries (m_slots t)) \<le> m_size t"

text \<open>
  The table is in order: it is well formed, its slots keep the Robin Hood invariant for
  the hash positions of its capacity, and \<open>m_size\<close> is the number of occupied slots.
\<close>

definition table_inv :: "('k \<Rightarrow> nat) \<Rightarrow> ('k, 'v) unordered_map \<Rightarrow> bool" where
  "table_inv hasher t \<longleftrightarrow>
     well_formed t \<and> robin_hood (m_capacity t) (hashAndTrim hasher t) (m_slots t) \<and>
     length (entries (m_slots t)) = m_size t"

text \<open>The key is stored in an occupied slot.\<close>

definition stored :: "('k, 'v) unordered_map \<Rightarrow> 'k \<Rightarrow> bool" where
  "stored t key \<longleftrightarrow>
     (\<exists>p < m_capacity t. occupied (m_slots t ! p) \<and> key_at (m_slots t) p = key)"

lemma and_nat_le: "(x :: nat) AND y \<le> y"
proof -
  have "int (x AND y) = int x AND int y" by (rule of_nat_and_eq)
  also have "\<dots> \<le> int y" by (rule AND_upper2) simp
  finally show ?thesis by simp
qed

lemma hashAndTrim_less: "well_formed t \<Longrightarrow> hashAndTrim hasher t key < m_capacity t"
  using and_nat_le [of "hasher key" "m_capacity t - 1"]
  by (auto simp: well_formed_def hashAndTrim_def)

lemma robin_hood_empty:
  "0 < cap \<Longrightarrow> \<forall>k. hm k < cap \<Longrightarrow> robin_hood cap hm (replicate cap (255, None))"
  by (auto simp: robin_hood_def constructed_def positioned_def ordered_def unique_keys_def
      occupied_def advance_wrap_def)

lemma entries_empty: "entries (replicate n (255, None)) = []"
  by (simp add: entries_def occupied_def)

lemma size_t_id: "n < 2 ^ 64 \<Longrightarrow> size_t n = n"
  by (simp add: size_t_def)

lemma size_t_dec:
  assumes "0 < n" "n < 2 ^ 64"
  shows "size_t (n + 2 ^ 64 - 1) = n - 1"
proof -
  from assms obtain m where m: "n = Suc m" by (cases n) auto
  have "n + 2 ^ 64 - 1 = m + 2 ^ 64" unfolding m by simp
  then have "size_t (n + 2 ^ 64 - 1) = (m + 2 ^ 64) mod 2 ^ 64" by (simp only: size_t_def)
  also have "\<dots> = m mod 2 ^ 64" by (rule mod_add_self2)
  also have "\<dots> = m" using assms m by simp
  finally show ?thesis using m by simp
qed

lemma find_present:
  assumes "table_inv hasher t" "p < m_capacity t" "occupied (m_slots t ! p)"
    "key_at (m_slots t) p = key"
  shows "find_key hasher t key = Inr p"
  unfolding find_key_def
  using assms
  by (intro find_loop_present [where hm = "hashAndTrim hasher t" and j = 0])
     (simp_all add: table_inv_def hashAndTrim_less)

lemma find_result:
  assumes "well_formed t"
  shows "\<exists>r. find_key hasher t key = Inr r \<and> r \<le> m_capacity t \<and>
           (r < m_capacity t \<longrightarrow> occupied (m_slots t ! r) \<and> (\<exists>v. snd (m_slots t ! r) = Some (key, v)))"
proof -
  have len: "length (m_slots t) = m_capacity t" and con: "constructed (m_slots t)"
    using assms by (simp_all add: well_formed_def)
  obtain r where r: "find_key hasher t key = Inr r" "r \<le> m_capacity t"
    using find_loop_returns [OF len con hashAndTrim_less [OF assms]] unfolding find_key_def by blast
  then show ?thesis
    using find_loop_sound [of "m_capacity t" "m_slots t" key 0 "hashAndTrim hasher t key" r] len
    unfolding find_key_def by auto
qed

lemma find_absent:
  assumes "well_formed t" "\<not> stored t key"
  shows "find_key hasher t key = Inr (m_capacity t)"
proof -
  obtain r where r: "find_key hasher t key = Inr r" "r \<le> m_capacity t"
    "r < m_capacity t \<longrightarrow> occupied (m_slots t ! r) \<and> (\<exists>v. snd (m_slots t ! r) = Some (key, v))"
    using find_result [OF assms(1)] by blast
  have "\<not> r < m_capacity t"
  proof
    assume "r < m_capacity t"
    then have "stored t key" using r(3) unfolding stored_def key_at_def by force
    then show False using assms(2) by simp
  qed
  then show ?thesis using r by simp
qed

lemma insert_loop_table:
  assumes "well_formed t"
  shows "\<exists>slots r b. insert_loop (m_capacity t) (m_slots t) kv 0 (hashAndTrim hasher t (fst kv))
            = Inr (slots, r, b) \<and> constructed slots \<and> length slots = m_capacity t \<and>
            r < m_capacity t \<and>
            length (entries slots) \<le> length (entries (m_slots t)) + (if b then 1 else 0)"
proof -
  have len: "length (m_slots t) = m_capacity t" and con: "constructed (m_slots t)"
    using assms by (simp_all add: well_formed_def)
  obtain slots r b where r: "insert_loop (m_capacity t) (m_slots t) kv 0
      (hashAndTrim hasher t (fst kv)) = Inr (slots, r, b)" "constructed slots"
    using insert_loop_returns [OF len con hashAndTrim_less [OF assms]] by blast
  then show ?thesis using insert_loop_count [OF r(1)] len by auto
qed

lemma size_Suc: "well_formed t \<Longrightarrow> size_t (m_size t + 1) = Suc (m_size t)"
  by (simp add: well_formed_def size_t_id)

lemma insert_with_no_growth:
  assumes wf: "well_formed t" and ng: "Suc (m_size t) \<noteq> m_max_elems t"
    and res: "insert_with ins hasher t kv = Inr (t', iter, b)"
  shows "well_formed t' \<and> t'\<lparr>m_size := m_size t, m_slots := m_slots t\<rparr> = t \<and>
         m_size t' = m_size t + (if b then 1 else 0) \<and>
         length (entries (m_slots t')) \<le> length (entries (m_slots t)) + (if b then 1 else 0) \<and>
         (\<exists>r. insert_loop (m_capacity t) (m_slots t) kv 0 (hashAndTrim hasher t (fst kv))
                = Inr (m_slots t', r, b) \<and> (\<not> b \<longrightarrow> iter = r)) \<and>
         (b \<longrightarrow> find_key hasher t' (fst kv) = Inr iter)"
proof -
  obtain slots r b0 where r: "insert_loop (m_capacity t) (m_slots t) kv 0
        (hashAndTrim hasher t (fst kv)) = Inr (slots, r, b0)"
    and con: "constructed slots" and len: "length slots = m_capacity t"
    and cnt: "length (entries slots) \<le> length (entries (m_slots t)) + (if b0 then 1 else 0)"
    using insert_loop_table [OF wf] by blast
  have lt: "Suc (m_size t) < m_max_elems t" using wf ng by (simp add: well_formed_def)
  show ?thesis
  proof (cases b0)
    case True
    let ?t1 = "t\<lparr>m_size := Suc (m_size t), m_slots := slots\<rparr>"
    have "(case find_key hasher ?t1 (fst kv) of Inl err \<Rightarrow> Inl err | Inr it \<Rightarrow> Inr (?t1, it, True))
            = Inr (t', iter, b)"
      using res r True ng size_Suc [OF wf] by (simp add: insert_with_def Let_def)
    then have eq: "t' = ?t1" "b" "find_key hasher ?t1 (fst kv) = Inr iter"
      by (auto split: sum.splits)
    have "well_formed ?t1"
      using wf con len cnt True lt by (simp add: well_formed_def)
    then show ?thesis using eq r True cnt by simp
  next
    case False
    then have eq: "t' = t\<lparr>m_slots := slots\<rparr>" "\<not> b" "iter = r"
      using res r by (simp_all add: insert_with_def)
    have "well_formed (t\<lparr>m_slots := slots\<rparr>)"
      using wf con len cnt False by (simp add: well_formed_def)
    then show ?thesis using eq r False cnt by simp
  qed
qed

lemma stored_fresh:
  "\<not> stored t key \<longleftrightarrow> (\<forall>p < m_capacity t. occupied (m_slots t ! p) \<longrightarrow> key_at (m_slots t) p \<noteq> key)"
  by (auto simp: stored_def)

lemma insert_loop_start:
  assumes rh: "robin_hood cap hm slots"
    and fresh: "\<forall>p < cap. occupied (slots ! p) \<longrightarrow> key_at slots p \<noteq> fst kv"
    and res: "insert_loop cap slots kv 0 (hm (fst kv)) = Inr (slots', r, b)"
  shows "(\<not> b \<longrightarrow> length (entries slots') < length (entries slots)) \<and>
         (length (entries slots') = Suc (length (entries slots)) \<longrightarrow>
            b \<and> robin_hood cap hm slots' \<and>
            mset (entries slots') = add_mset kv (mset (entries slots)))"
proof -
  have hm: "hm (fst kv) < cap" using rh by (simp add: robin_hood_def)
  then have pos: "hm (fst kv) = (hm (fst kv) + unat (0 :: 8 word)) mod cap" by simp
  have pred: "\<forall>q < cap. advance_wrap cap q = hm (fst kv) \<longrightarrow> (0 :: 8 word) \<noteq> 0 \<longrightarrow>
      occupied (slots ! q) \<and> unat (0 :: 8 word) \<le> Suc (unat (fst (slots ! q)))" by simp
  show ?thesis
    using insert_loop_not_found [OF res rh fresh pos pred]
      insert_loop_robin_hood [OF res rh fresh pos pred] by blast
qed

lemma hashAndTrim_cong:
  "m_capacity_dec t' = m_capacity_dec t \<Longrightarrow> hashAndTrim hasher t' = hashAndTrim hasher t"
  by (auto simp: hashAndTrim_def fun_eq_iff)

lemma insert_with_inv_no_growth:
  assumes inv: "table_inv hasher t" and ng: "Suc (m_size t) \<noteq> m_max_elems t"
    and res: "insert_with ins hasher t kv = Inr (t', iter, b)"
    and cnt: "length (entries (m_slots t')) = m_size t'"
  shows "table_inv hasher t' \<and> find_key hasher t' (fst kv) = Inr iter \<and>
         (stored t (fst kv) \<longrightarrow> t' = t \<and> \<not> b) \<and>
         (\<not> stored t (fst kv) \<longrightarrow>
            b \<and> mset (entries (m_slots t')) = add_mset kv (mset (entries (m_slots t))))"
proof -
  from inv have wf: "well_formed t"
    and rh: "robin_hood (m_capacity t) (hashAndTrim hasher t) (m_slots t)"
    and sz: "length (entries (m_slots t)) = m_size t"
    by (simp_all add: table_inv_def)
  from insert_with_no_growth [OF wf ng res]
  obtain r where wf': "well_formed t'" and t': "t'\<lparr>m_size := m_size t, m_slots := m_slots t\<rparr> = t"
    and sz': "m_size t' = m_size t + (if b then 1 else 0)"
    and loop: "insert_loop (m_capacity t) (m_slots t) kv 0 (hashAndTrim hasher t (fst kv))
                = Inr (m_slots t', r, b)"
    and it: "\<not> b \<longrightarrow> iter = r" and fnd: "b \<longrightarrow> find_key hasher t' (fst kv) = Inr iter"
    by blast
  have cap': "m_capacity t' = m_capacity t" and dec': "m_capacity_dec t' = m_capacity_dec t"
    using arg_cong [OF t', of m_capacity] arg_cong [OF t', of m_capacity_dec] by simp_all
  have hm': "hashAndTrim hasher t' = hashAndTrim hasher t" using dec' by (rule hashAndTrim_cong)
  show ?thesis
  proof (cases "stored t (fst kv)")
    case True
    then obtain p where p: "p < m_capacity t" "occupied (m_slots t ! p)"
      "key_at (m_slots t) p = fst kv" unfolding stored_def by blast
    have "insert_loop (m_capacity t) (m_slots t) kv 0 (hashAndTrim hasher t (fst kv))
            = Inr (m_slots t, p, False)"
      using rh p
      by (intro insert_loop_present [where hm = "hashAndTrim hasher t" and j = 0])
         (simp_all add: hashAndTrim_less [OF wf])
    then have eq: "m_slots t' = m_slots t" "\<not> b" "r = p" using loop by simp_all
    then have sz1: "m_size t' = m_size t" using sz' by simp
    have "t'\<lparr>m_size := m_size t', m_slots := m_slots t'\<rparr> = t'" by simp
    then have "t'\<lparr>m_size := m_size t, m_slots := m_slots t\<rparr> = t'"
      by (simp only: sz1 eq(1))
    then have tt: "t' = t" using t' by metis
    have "find_key hasher t (fst kv) = Inr p" using inv p by (rule find_present)
    then show ?thesis using tt eq it inv True by simp
  next
    case False
    then have fresh: "\<forall>p < m_capacity t. occupied (m_slots t ! p) \<longrightarrow>
        key_at (m_slots t) p \<noteq> fst kv" by (simp add: stored_fresh)
    note st = insert_loop_start [OF rh fresh loop]
    have b: "b"
    proof (rule ccontr)
      assume nb: "\<not> b"
      then have 1: "length (entries (m_slots t')) < length (entries (m_slots t))"
        using st by blast
      have "m_size t' = m_size t" using sz' nb by simp
      then show False using 1 sz cnt by linarith
    qed
    then have "m_size t' = Suc (m_size t)" using sz' by simp
    then have "length (entries (m_slots t')) = Suc (length (entries (m_slots t)))"
      using sz cnt by linarith
    then have rh': "robin_hood (m_capacity t) (hashAndTrim hasher t) (m_slots t')"
      and ms: "mset (entries (m_slots t')) = add_mset kv (mset (entries (m_slots t)))"
      using st by simp_all
    have "table_inv hasher t'"
      using wf' rh' cnt cap' hm' by (simp add: table_inv_def)
    then show ?thesis using fnd b ms False by simp
  qed
qed

lemma entries_Cons:
  "entries ((info, e) # rest) = (if info \<noteq> 255 then the e # entries rest else entries rest)"
  by (simp add: entries_def occupied_def)

lemma frame_trans:
  assumes "t2\<lparr>m_size := m_size t1, m_slots := m_slots t1\<rparr> = t1"
    and "t1\<lparr>m_size := m_size t, m_slots := m_slots t\<rparr> = t"
  shows "t2\<lparr>m_size := m_size t, m_slots := m_slots t\<rparr> = t"
proof -
  have "(t2\<lparr>m_size := m_size t1, m_slots := m_slots t1\<rparr>)\<lparr>m_size := m_size t, m_slots := m_slots t\<rparr>
          = t1\<lparr>m_size := m_size t, m_slots := m_slots t\<rparr>"
    using assms(1) by (rule arg_cong)
  then show ?thesis using assms(2) by simp
qed

lemma frame_fields:
  assumes "t'\<lparr>m_size := m_size t, m_slots := m_slots t\<rparr> = t"
  shows "m_capacity t' = m_capacity t" "m_capacity_dec t' = m_capacity_dec t"
    "m_max_elems t' = m_max_elems t" "GROWTH_FACTOR t' = GROWTH_FACTOR t"
    "LOAD_FACTOR t' = LOAD_FACTOR t" "ELEM_OFFSET t' = ELEM_OFFSET t"
    "INITIAL_CAPACITY t' = INITIAL_CAPACITY t"
  using arg_cong [OF assms, of m_capacity] arg_cong [OF assms, of m_capacity_dec]
    arg_cong [OF assms, of m_max_elems] arg_cong [OF assms, of GROWTH_FACTOR]
    arg_cong [OF assms, of LOAD_FACTOR] arg_cong [OF assms, of ELEM_OFFSET]
    arg_cong [OF assms, of INITIAL_CAPACITY]
  by simp_all

lemma rehash_well_formed:
  "rehash (insert_depth n hasher) t rest = Inr t' \<Longrightarrow> well_formed t \<Longrightarrow>
   m_size t + length (entries rest) < m_max_elems t \<Longrightarrow>
   well_formed t' \<and> t'\<lparr>m_size := m_size t, m_slots := m_slots t\<rparr> = t \<and>
   m_size t' \<le> m_size t + length (entries rest) \<and>
   m_size t + length (entries (m_slots t')) \<le> m_size t' + length (entries (m_slots t))"
proof (induction rest arbitrary: t)
  case Nil
  then show ?case by simp
next
  case (Cons x rest)
  obtain info e where x: "x = (info, e)" by (cases x)
  show ?case
  proof (cases "info = 255")
    case True
    then have "rehash (insert_depth n hasher) t rest = Inr t'"
      using Cons.prems(1) x by simp
    moreover have "m_size t + length (entries rest) < m_max_elems t"
      using Cons.prems(3) x True by (simp add: entries_Cons)
    ultimately show ?thesis
      using Cons.IH [of t] Cons.prems(2) x True by (simp add: entries_Cons)
  next
    case False
    then obtain kv where e: "e = Some kv"
      using Cons.prems(1) x by (cases e) auto
    obtain t1 it b where ins: "insert_depth n hasher t kv = Inr (t1, it, b)"
      and rec: "rehash (insert_depth n hasher) t1 rest = Inr t'"
      using Cons.prems(1) x False e by (auto split: sum.splits)
    obtain m where n: "n = Suc m" using ins by (cases n) auto
    have len: "length (entries (x # rest)) = Suc (length (entries rest))"
      using x False by (simp add: entries_Cons)
    have ng: "Suc (m_size t) \<noteq> m_max_elems t" using Cons.prems(3) len by simp
    have iw: "insert_with (insert_depth m hasher) hasher t kv = Inr (t1, it, b)"
      using ins n by simp
    note st = insert_with_no_growth [OF Cons.prems(2) ng iw]
    then have wf1: "well_formed t1" and fr1: "t1\<lparr>m_size := m_size t, m_slots := m_slots t\<rparr> = t"
      and sz1: "m_size t1 = m_size t + (if b then 1 else 0)"
      and c1: "length (entries (m_slots t1)) \<le> length (entries (m_slots t)) + (if b then 1 else 0)"
      by blast+
    have "m_size t1 + length (entries rest) < m_max_elems t1"
      using Cons.prems(3) len sz1 frame_fields(3) [OF fr1] by simp
    from Cons.IH [OF rec wf1 this]
    have wf': "well_formed t'" and fr': "t'\<lparr>m_size := m_size t1, m_slots := m_slots t1\<rparr> = t1"
      and sz': "m_size t' \<le> m_size t1 + length (entries rest)"
      and c': "m_size t1 + length (entries (m_slots t')) \<le> m_size t' + length (entries (m_slots t1))"
      by blast+
    have "t'\<lparr>m_size := m_size t, m_slots := m_slots t\<rparr> = t" using fr' fr1 by (rule frame_trans)
    moreover have "m_size t' \<le> m_size t + length (entries (x # rest))"
      using sz' sz1 len by (simp split: if_splits)
    moreover have "m_size t + length (entries (m_slots t')) \<le> m_size t' + length (entries (m_slots t))"
      using c' c1 sz1 by (simp split: if_splits)
    ultimately show ?thesis using wf' by blast
  qed
qed

lemma stored_entries:
  assumes "length (m_slots t) = m_capacity t"
  shows "stored t key \<longleftrightarrow> key \<in> fst ` set (entries (m_slots t))"
proof
  assume "stored t key"
  then obtain p where p: "p < m_capacity t" "occupied (m_slots t ! p)"
    "key_at (m_slots t) p = key" unfolding stored_def by blast
  then have "the (snd (m_slots t ! p)) \<in> set (entries (m_slots t))"
    using assms entries_mem [of "the (snd (m_slots t ! p))" "m_slots t"] by auto
  then show "key \<in> fst ` set (entries (m_slots t))"
    using p(3) unfolding key_at_def by (metis imageI)
next
  assume "key \<in> fst ` set (entries (m_slots t))"
  then obtain kv where "kv \<in> set (entries (m_slots t))" "fst kv = key" by auto
  then obtain p where "p < length (m_slots t)" "occupied (m_slots t ! p)"
    "the (snd (m_slots t ! p)) = kv" using entries_mem [of kv "m_slots t"] by auto
  then show "stored t key"
    using assms \<open>fst kv = key\<close> unfolding stored_def key_at_def by auto
qed

lemma rehash_table_inv:
  "rehash (insert_depth n hasher) t rest = Inr t' \<Longrightarrow> table_inv hasher t \<Longrightarrow>
   m_size t + length (entries rest) < m_max_elems t \<Longrightarrow>
   distinct (map fst (entries rest)) \<Longrightarrow>
   \<forall>kv \<in> set (entries rest). \<not> stored t (fst kv) \<Longrightarrow>
   length (entries (m_slots t')) = m_size t' \<Longrightarrow>
   table_inv hasher t' \<and>
   mset (entries (m_slots t')) = mset (entries (m_slots t)) + mset (entries rest)"
proof (induction rest arbitrary: t)
  case Nil
  then show ?case by (simp add: entries_def)
next
  case (Cons x rest)
  note res = Cons.prems(1) and inv = Cons.prems(2) and bound = Cons.prems(3)
    and dist = Cons.prems(4) and fresh = Cons.prems(5) and cnt = Cons.prems(6)
  obtain info e where x: "x = (info, e)" by (cases x)
  show ?case
  proof (cases "info = 255")
    case True
    then have ent: "entries (x # rest) = entries rest" using x by (simp add: entries_Cons)
    have "rehash (insert_depth n hasher) t rest = Inr t'" using res x True by simp
    then show ?thesis
      using Cons.IH [of t] inv bound dist fresh cnt unfolding ent by simp
  next
    case False
    then obtain kv where e: "e = Some kv" using res x by (cases e) auto
    have ent: "entries (x # rest) = kv # entries rest"
      using x False e by (simp add: entries_Cons)
    obtain t1 it b where ins: "insert_depth n hasher t kv = Inr (t1, it, b)"
      and rec: "rehash (insert_depth n hasher) t1 rest = Inr t'"
      using res x False e by (auto split: sum.splits)
    obtain m where n: "n = Suc m" using ins by (cases n) auto
    have wf: "well_formed t" using inv by (simp add: table_inv_def)
    have ng: "Suc (m_size t) \<noteq> m_max_elems t" using bound ent by simp
    have iw: "insert_with (insert_depth m hasher) hasher t kv = Inr (t1, it, b)"
      using ins n by simp
    note st = insert_with_no_growth [OF wf ng iw]
    then have wf1: "well_formed t1" and fr1: "t1\<lparr>m_size := m_size t, m_slots := m_slots t\<rparr> = t"
      and sz1: "m_size t1 = m_size t + (if b then 1 else 0)"
      by blast+
    have b1: "m_size t1 + length (entries rest) < m_max_elems t1"
      using bound ent sz1 frame_fields(3) [OF fr1] by simp
    have "m_size t1 + length (entries (m_slots t')) \<le> m_size t' + length (entries (m_slots t1))"
      using rehash_well_formed [OF rec wf1 b1] by blast
    moreover have "length (entries (m_slots t1)) \<le> m_size t1"
      using wf1 by (simp add: well_formed_def)
    ultimately have cnt1: "length (entries (m_slots t1)) = m_size t1" using cnt by linarith
    have ns: "\<not> stored t (fst kv)" using fresh ent by simp
    from insert_with_inv_no_growth [OF inv ng iw cnt1] ns
    have inv1: "table_inv hasher t1"
      and ms1: "mset (entries (m_slots t1)) = add_mset kv (mset (entries (m_slots t)))"
      by blast+
    have len: "length (m_slots t) = m_capacity t" using wf by (simp add: well_formed_def)
    have len1: "length (m_slots t1) = m_capacity t1" using wf1 by (simp add: well_formed_def)
    have set1: "set (entries (m_slots t1)) = insert kv (set (entries (m_slots t)))"
      using arg_cong [OF ms1, of set_mset] by simp
    have fresh1: "\<forall>kv' \<in> set (entries rest). \<not> stored t1 (fst kv')"
    proof
      fix kv' assume k: "kv' \<in> set (entries rest)"
      have "fst kv \<notin> fst ` set (entries rest)" using dist ent by simp
      then have "fst kv' \<noteq> fst kv" using k by (metis imageI)
      moreover have "fst kv' \<notin> fst ` set (entries (m_slots t))"
        using fresh k ent stored_entries [OF len] by simp
      ultimately show "\<not> stored t1 (fst kv')"
        using stored_entries [OF len1] set1 by auto
    qed
    have dist1: "distinct (map fst (entries rest))" using dist ent by simp
    from Cons.IH [OF rec inv1 b1 dist1 fresh1 cnt]
    show ?thesis using ms1 ent by simp
  qed
qed

lemma entries_Cons_occ:
  "entries (x # xs) = (if occupied x then the (snd x) # entries xs else entries xs)"
  by (simp add: entries_def)

lemma unique_keys_distinct:
  "(\<forall>i < length xs. \<forall>j < length xs. occupied (xs ! i) \<longrightarrow> occupied (xs ! j) \<longrightarrow>
      key_at xs i = key_at xs j \<longrightarrow> i = j) \<Longrightarrow> distinct (map fst (entries xs))"
proof (induction xs)
  case Nil
  then show ?case by (simp add: entries_def)
next
  case (Cons x xs)
  have tl: "\<forall>i < length xs. \<forall>j < length xs. occupied (xs ! i) \<longrightarrow> occupied (xs ! j) \<longrightarrow>
      key_at xs i = key_at xs j \<longrightarrow> i = j"
  proof (intro allI impI)
    fix i j assume "i < length xs" "j < length xs" "occupied (xs ! i)" "occupied (xs ! j)"
      "key_at xs i = key_at xs j"
    then have "Suc i = Suc j"
      using Cons.prems [rule_format, of "Suc i" "Suc j"] by (simp add: key_at_def)
    then show "i = j" by simp
  qed
  have d: "distinct (map fst (entries xs))" using Cons.IH [OF tl] .
  show ?case
  proof (cases "occupied x")
    case True
    have "fst (the (snd x)) \<notin> fst ` set (entries xs)"
    proof
      assume "fst (the (snd x)) \<in> fst ` set (entries xs)"
      then obtain kv where "kv \<in> set (entries xs)" "fst kv = fst (the (snd x))" by auto
      then obtain p where p: "p < length xs" "occupied (xs ! p)" "the (snd (xs ! p)) = kv"
        using entries_mem [of kv xs] by auto
      have "0 = Suc p"
        using Cons.prems [rule_format, of 0 "Suc p"] p True \<open>fst kv = fst (the (snd x))\<close>
        by (simp add: key_at_def)
      then show False by simp
    qed
    then show ?thesis using d True by (simp add: entries_Cons_occ)
  next
    case False
    then show ?thesis using d by (simp add: entries_Cons_occ)
  qed
qed

lemma robin_hood_distinct: "robin_hood cap hm slots \<Longrightarrow> distinct (map fst (entries slots))"
  by (rule unique_keys_distinct) (simp add: robin_hood_def unique_keys_def)

lemma is_pow2_mult: "is_pow2 a \<Longrightarrow> is_pow2 b \<Longrightarrow> is_pow2 (a * b)"
  unfolding is_pow2_def by (metis power_add)

lemma pow2_size_t:
  assumes "is_pow2 n"
  shows "size_t n = n \<or> size_t n = 0"
proof -
  from assms obtain k where k: "n = 2 ^ k" unfolding is_pow2_def by blast
  show ?thesis
  proof (cases "k < 64")
    case True
    then have "(2 :: nat) ^ k < 2 ^ 64" by (intro power_strict_increasing) simp_all
    then show ?thesis using k by (simp add: size_t_def)
  next
    case False
    then have "(2 :: nat) ^ 64 dvd 2 ^ k" by (intro le_imp_power_dvd) simp
    then show ?thesis using k by (simp add: size_t_def)
  qed
qed

lemma size_t_less: "size_t n < 2 ^ 64"
  by (simp add: size_t_def)

lemma floor_growth:
  assumes "0 \<le> lf" and "2 \<le> g"
  shows "2 * nat \<lfloor>real cap * lf\<rfloor> \<le> nat \<lfloor>real (cap * g) * lf\<rfloor>"
proof -
  let ?x = "real cap * lf"
  have x: "0 \<le> ?x" using assms(1) by simp
  then have "real (nat \<lfloor>?x\<rfloor>) \<le> ?x" by simp
  then have "real (2 * nat \<lfloor>?x\<rfloor>) \<le> 2 * ?x" by simp
  also have "\<dots> \<le> real g * ?x" using x assms(2) by (intro mult_right_mono) simp_all
  also have "\<dots> = real (cap * g) * lf" by simp
  finally show ?thesis by (rule le_nat_floor)
qed

lemma float_to_size_Inr:
  "float_to_size x = Inr n \<Longrightarrow> n = nat \<lfloor>x\<rfloor> \<and> n < 2 ^ 64"
proof -
  assume a: "float_to_size x = Inr n"
  then have x: "x < 2 ^ 64" and n: "n = nat \<lfloor>x\<rfloor>"
    by (auto simp: float_to_size_def split: if_splits)
  have fl: "\<lfloor>x\<rfloor> < 18446744073709551616" using x by simp
  have "nat \<lfloor>x\<rfloor> < 18446744073709551616"
  proof (cases "0 \<le> \<lfloor>x\<rfloor>")
    case True
    then show ?thesis using fl by (simp add: nat_less_iff)
  next
    case False
    then show ?thesis by simp
  qed
  then show ?thesis using n by simp
qed

lemma allocate_Inr: "allocate elem cap = Inr slots \<Longrightarrow> slots = replicate cap (255, None)"
  by (auto simp: allocate_def split: if_splits)

lemma insert_depth_empty: "m_slots t = [] \<Longrightarrow> \<exists>err. insert_depth n hasher t kv = Inl err"
  by (cases n) (simp_all add: insert_with_def insert_loop.simps)

lemma rehash_empty:
  "m_slots t = [] \<Longrightarrow> rehash (insert_depth n hasher) t rest = Inr t' \<Longrightarrow> t' = t"
proof (induction rest)
  case Nil
  then show ?case by simp
next
  case (Cons x rest)
  obtain info e where x: "x = (info, e)" by (cases x)
  show ?case
  proof (cases "info = 255")
    case True
    then show ?thesis using Cons x by simp
  next
    case False
    then obtain kv where e: "e = Some kv" using Cons.prems(2) x by (cases e) auto
    obtain err where "insert_depth n hasher t kv = Inl err"
      using insert_depth_empty [OF Cons.prems(1)] by blast
    then show ?thesis using Cons.prems(2) x False e by simp
  qed
qed

lemma find_key_empty: "m_slots t = [] \<Longrightarrow> find_key hasher t key = Inl Out_of_bounds"
  by (simp add: find_key_def find_loop.simps)

text \<open>The table \<open>grow\<close> reinserts into: the buffer of the new capacity, all slots empty.\<close>

definition grown :: "('k, 'v) unordered_map \<Rightarrow> ('k, 'v) unordered_map" where
  "grown t =
     t\<lparr>m_capacity_dec := m_capacity t * GROWTH_FACTOR t - 1,
       m_max_elems := nat \<lfloor>real (m_capacity t * GROWTH_FACTOR t) * LOAD_FACTOR t\<rfloor>,
       m_capacity := m_capacity t * GROWTH_FACTOR t, m_size := 0,
       m_slots := replicate (m_capacity t * GROWTH_FACTOR t) (255, None)\<rparr>"

lemma grow_unfold:
  fixes t :: "('k, 'v) unordered_map"
  assumes wf: "well_formed t" and len: "length slots1 = m_capacity t"
    and cnt: "length (entries slots1) \<le> Suc (m_size t)" and full: "Suc (m_size t) = m_max_elems t"
    and res: "grow (insert_depth n hasher) (t\<lparr>m_size := Suc (m_size t), m_slots := slots1\<rparr>) = Inr t2"
    and ne: "m_slots t2 \<noteq> []"
  shows "well_formed (grown t) \<and> rehash (insert_depth n hasher) (grown t) slots1 = Inr t2 \<and>
         length (entries slots1) < m_max_elems (grown t) \<and>
         m_capacity t * GROWTH_FACTOR t < 2 ^ 64"
proof -
  let ?cap = "m_capacity t" and ?g = "GROWTH_FACTOR t" and ?lf = "LOAD_FACTOR t"
  let ?t1 = "t\<lparr>m_size := Suc (m_size t), m_slots := slots1\<rparr>"
  let ?c = "size_t (?cap * ?g)"
  let ?tn = "\<lambda>mx. t\<lparr>m_capacity_dec := size_t (?c + 2 ^ 64 - 1), m_max_elems := mx,
                   m_capacity := ?c, m_size := 0, m_slots := replicate ?c (255, None)\<rparr>"
  from wf have p2: "is_pow2 ?cap" "is_pow2 ?g" and c2: "2 \<le> ?cap" and g2: "2 \<le> ?g"
    and lf: "0 \<le> ?lf" and mx: "m_max_elems t = nat \<lfloor>real ?cap * ?lf\<rfloor>"
    by (simp_all add: well_formed_def)
  have "\<exists>mx. float_to_size (real ?c * ?lf) = Inr mx"
    using res by (cases "float_to_size (real ?c * ?lf)") (auto simp: grow_def Let_def)
  then obtain mx where f: "float_to_size (real ?c * ?lf) = Inr mx" by blast
  have "\<exists>slots :: ('k, 'v) slot list. allocate (ELEM_OFFSET t) ?c = Inr slots"
    using res f by (cases "allocate (ELEM_OFFSET t) ?c :: error + ('k, 'v) slot list")
      (auto simp: grow_def Let_def)
  then obtain slots :: "('k, 'v) slot list" where a: "allocate (ELEM_OFFSET t) ?c = Inr slots"
    by blast
  have slots: "slots = replicate ?c (255, None)" using a by (rule allocate_Inr)
  have rh: "rehash (insert_depth n hasher) (?tn mx) slots1 = Inr t2"
    using res f a slots len by (simp add: grow_def Let_def)
  have c0: "?c \<noteq> 0"
  proof
    assume "?c = 0"
    then have "m_slots (?tn mx) = []" by simp
    then have "t2 = ?tn mx" using rh by (rule rehash_empty)
    then show False using ne \<open>?c = 0\<close> by simp
  qed
  then have c: "?c = ?cap * ?g" using pow2_size_t [OF is_pow2_mult [OF p2]] by auto
  have clt: "?cap * ?g < 2 ^ 64" using size_t_less [of "?cap * ?g"] c by simp
  have cpos: "0 < ?cap * ?g" using c2 g2 by simp
  have dec: "size_t (?c + 2 ^ 64 - 1) = ?cap * ?g - 1"
    unfolding c using cpos clt by (rule size_t_dec)
  have mxv: "mx = nat \<lfloor>real (?cap * ?g) * ?lf\<rfloor>" and mxlt: "mx < 2 ^ 64"
    using float_to_size_Inr [OF f] c by simp_all
  have dec': "size_t (18446744073709551615 + ?cap * ?g) = ?cap * ?g - Suc 0"
    using dec c by simp
  have tn: "?tn mx = grown t" using dec' c mxv by (simp add: grown_def)
  have dbl: "2 * m_max_elems t \<le> mx"
    unfolding mx mxv using lf g2 by (rule floor_growth)
  have pos: "0 < m_max_elems t" using full by simp
  have "2 * 2 \<le> ?cap * ?g" using c2 g2 by (rule mult_le_mono)
  then have big: "2 \<le> ?cap * ?g" by simp
  have mpos: "0 < mx" using dbl pos by simp
  have "well_formed (grown t)"
    unfolding well_formed_def
  proof (intro conjI)
    show "length (m_slots (grown t)) = m_capacity (grown t)" by (simp add: grown_def)
    show "is_pow2 (m_capacity (grown t))" using is_pow2_mult [OF p2] by (simp add: grown_def)
    show "2 \<le> m_capacity (grown t)" using big by (simp add: grown_def)
    show "m_capacity (grown t) < 2 ^ 64" using clt by (simp add: grown_def)
    show "m_capacity_dec (grown t) = m_capacity (grown t) - 1" by (simp add: grown_def)
    show "is_pow2 (GROWTH_FACTOR (grown t))" using p2 by (simp add: grown_def)
    show "2 \<le> GROWTH_FACTOR (grown t)" using g2 by (simp add: grown_def)
    show "0 \<le> LOAD_FACTOR (grown t)" using lf by (simp add: grown_def)
    show "m_max_elems (grown t) = nat \<lfloor>real (m_capacity (grown t)) * LOAD_FACTOR (grown t)\<rfloor>"
      by (simp add: grown_def)
    show "m_max_elems (grown t) < 2 ^ 64" using mxlt mxv by (simp add: grown_def)
    show "m_size (grown t) < m_max_elems (grown t)" using mpos mxv by (simp add: grown_def)
    show "constructed (m_slots (grown t))"
      by (simp add: grown_def constructed_def occupied_def)
    show "length (entries (m_slots (grown t))) \<le> m_size (grown t)"
      by (simp add: grown_def entries_empty)
  qed
  moreover have "length (entries slots1) < m_max_elems (grown t)"
    using cnt full dbl pos mxv by (simp add: grown_def)
  ultimately show ?thesis using rh clt unfolding tn by simp
qed

lemma insert_with_cases:
  assumes wf: "well_formed t"
    and res: "insert_with ins hasher t kv = Inr (t', iter, b)"
  obtains (kept) slots1 where
      "insert_loop (m_capacity t) (m_slots t) kv 0 (hashAndTrim hasher t (fst kv))
         = Inr (slots1, iter, False)"
      "t' = t\<lparr>m_slots := slots1\<rparr>" "\<not> b"
      "constructed slots1" "length slots1 = m_capacity t"
      "length (entries slots1) \<le> length (entries (m_slots t))"
  | (placed) slots1 r where
      "insert_loop (m_capacity t) (m_slots t) kv 0 (hashAndTrim hasher t (fst kv))
         = Inr (slots1, r, True)"
      "Suc (m_size t) \<noteq> m_max_elems t" "b"
      "t' = t\<lparr>m_size := Suc (m_size t), m_slots := slots1\<rparr>"
      "find_key hasher t' (fst kv) = Inr iter"
      "constructed slots1" "length slots1 = m_capacity t"
      "length (entries slots1) \<le> Suc (length (entries (m_slots t)))"
  | (grew) slots1 r where
      "insert_loop (m_capacity t) (m_slots t) kv 0 (hashAndTrim hasher t (fst kv))
         = Inr (slots1, r, True)"
      "Suc (m_size t) = m_max_elems t" "b"
      "grow ins (t\<lparr>m_size := Suc (m_size t), m_slots := slots1\<rparr>) = Inr t'"
      "find_key hasher t' (fst kv) = Inr iter"
      "constructed slots1" "length slots1 = m_capacity t"
      "length (entries slots1) \<le> Suc (length (entries (m_slots t)))"
proof -
  obtain slots1 r b0 where r: "insert_loop (m_capacity t) (m_slots t) kv 0
        (hashAndTrim hasher t (fst kv)) = Inr (slots1, r, b0)"
    and con: "constructed slots1" and len: "length slots1 = m_capacity t"
    and cnt: "length (entries slots1) \<le> length (entries (m_slots t)) + (if b0 then 1 else 0)"
    using insert_loop_table [OF wf] by blast
  show ?thesis
  proof (cases b0)
    case False
    then have "t' = t\<lparr>m_slots := slots1\<rparr>" "\<not> b" "iter = r"
      using res r by (simp_all add: insert_with_def)
    then show ?thesis using kept r con len cnt False by simp
  next
    case True
    let ?t1 = "t\<lparr>m_size := Suc (m_size t), m_slots := slots1\<rparr>"
    show ?thesis
    proof (cases "Suc (m_size t) = m_max_elems t")
      case F: False
      have "(case find_key hasher ?t1 (fst kv) of Inl err \<Rightarrow> Inl err
              | Inr it \<Rightarrow> Inr (?t1, it, True)) = Inr (t', iter, b)"
        using res r True F size_Suc [OF wf] by (simp add: insert_with_def Let_def)
      then have "t' = ?t1" "b" "find_key hasher ?t1 (fst kv) = Inr iter"
        by (auto split: sum.splits)
      then show ?thesis using placed r con len cnt True F by simp
    next
      case T: True
      have "(case grow ins ?t1 of Inl err \<Rightarrow> Inl err
              | Inr t2 \<Rightarrow> (case find_key hasher t2 (fst kv) of Inl err \<Rightarrow> Inl err
                  | Inr it \<Rightarrow> Inr (t2, it, True))) = Inr (t', iter, b)"
        using res r True T size_Suc [OF wf] by (simp add: insert_with_def Let_def)
      then have "grow ins ?t1 = Inr t'" "b" "find_key hasher t' (fst kv) = Inr iter"
        by (auto split: sum.splits)
      then show ?thesis using grew r con len cnt True T by simp
    qed
  qed
qed

lemma insert_with_well_formed:
  assumes wf: "well_formed t"
    and res: "insert_with (insert_depth n hasher) hasher t kv = Inr (t', iter, b)"
  shows "well_formed t' \<and> GROWTH_FACTOR t' = GROWTH_FACTOR t \<and> LOAD_FACTOR t' = LOAD_FACTOR t \<and>
         ELEM_OFFSET t' = ELEM_OFFSET t \<and> INITIAL_CAPACITY t' = INITIAL_CAPACITY t \<and>
         m_capacity t' = (if b \<and> Suc (m_size t) = m_max_elems t
                          then m_capacity t * GROWTH_FACTOR t else m_capacity t) \<and>
         m_size t' \<le> m_size t + (if b then 1 else 0)"
  using wf res
proof (cases rule: insert_with_cases)
  case (kept slots1)
  have "well_formed (t\<lparr>m_slots := slots1\<rparr>)"
    using wf kept(4,5,6) by (simp add: well_formed_def)
  then show ?thesis using kept by simp
next
  case (placed slots1 r)
  have "Suc (m_size t) < m_max_elems t" using wf placed(2) by (simp add: well_formed_def)
  then have "well_formed (t\<lparr>m_size := Suc (m_size t), m_slots := slots1\<rparr>)"
    using wf placed(6,7,8) by (simp add: well_formed_def)
  then show ?thesis using placed by simp
next
  case (grew slots1 r)
  have cnt: "length (entries slots1) \<le> Suc (m_size t)"
    using grew(8) wf by (simp add: well_formed_def)
  have ne: "m_slots t' \<noteq> []" using grew(5) find_key_empty [of t' hasher "fst kv"] by auto
  note g = grow_unfold [OF wf grew(7) cnt grew(2) grew(4) ne]
  then have b: "m_size (grown t) + length (entries slots1) < m_max_elems (grown t)"
    by (simp add: grown_def)
  from g have rh: "rehash (insert_depth n hasher) (grown t) slots1 = Inr t'"
    and wfg: "well_formed (grown t)" by blast+
  note r = rehash_well_formed [OF rh wfg b]
  then have fr: "t'\<lparr>m_size := m_size (grown t), m_slots := m_slots (grown t)\<rparr> = grown t"
    by blast
  have "m_size t' \<le> Suc (m_size t)" using r cnt by (simp add: grown_def)
  then show ?thesis using r grew(2,3) frame_fields [OF fr] by (simp add: grown_def)
qed

lemma stored_empty: "\<not> stored (grown t) key"
  by (simp add: stored_def grown_def occupied_def)

lemma table_inv_grown:
  assumes "well_formed (grown t)"
  shows "table_inv hasher (grown t)"
proof -
  have "robin_hood (m_capacity (grown t)) (hashAndTrim hasher (grown t))
          (replicate (m_capacity (grown t)) (255, None))"
    using assms hashAndTrim_less [OF assms]
    by (intro robin_hood_empty) (auto simp: well_formed_def)
  then show ?thesis using assms by (simp add: table_inv_def grown_def entries_empty)
qed

lemma insert_with_table_inv:
  assumes inv: "table_inv hasher t"
    and res: "insert_with (insert_depth n hasher) hasher t kv = Inr (t', iter, b)"
    and cnt: "length (entries (m_slots t')) = length (entries (m_slots t)) + (if b then 1 else 0)"
  shows "table_inv hasher t' \<and> find_key hasher t' (fst kv) = Inr iter \<and>
         (stored t (fst kv) \<longrightarrow> t' = t \<and> \<not> b) \<and>
         (\<not> stored t (fst kv) \<longrightarrow>
            b \<and> mset (entries (m_slots t')) = add_mset kv (mset (entries (m_slots t))))"
proof -
  from inv have wf: "well_formed t"
    and rh: "robin_hood (m_capacity t) (hashAndTrim hasher t) (m_slots t)"
    and sz: "length (entries (m_slots t)) = m_size t"
    by (simp_all add: table_inv_def)
  show ?thesis
  proof (cases "Suc (m_size t) = m_max_elems t")
    case False
    have "m_size t' = m_size t + (if b then 1 else 0)"
      using insert_with_no_growth [OF wf False res] by blast
    then have "length (entries (m_slots t')) = m_size t'" using cnt sz by simp
    with inv False res show ?thesis by (rule insert_with_inv_no_growth)
  next
    case full: True
    from wf res show ?thesis
    proof (cases rule: insert_with_cases)
      case (kept slots1)
      have c1: "length (entries slots1) = length (entries (m_slots t))"
        using cnt kept by simp
      show ?thesis
      proof (cases "stored t (fst kv)")
        case True
        then obtain p where p: "p < m_capacity t" "occupied (m_slots t ! p)"
          "key_at (m_slots t) p = fst kv" unfolding stored_def by blast
        have "insert_loop (m_capacity t) (m_slots t) kv 0 (hashAndTrim hasher t (fst kv))
                = Inr (m_slots t, p, False)"
          using rh p
          by (intro insert_loop_present [where hm = "hashAndTrim hasher t" and j = 0])
             (simp_all add: hashAndTrim_less [OF wf])
        then have eq: "slots1 = m_slots t" "iter = p" using kept(1) by simp_all
        then have tt: "t' = t" using kept(2) by simp
        have "find_key hasher t (fst kv) = Inr p" using inv p by (rule find_present)
        then show ?thesis using tt eq kept(3) inv True by simp
      next
        case False
        then have fresh: "\<forall>p < m_capacity t. occupied (m_slots t ! p) \<longrightarrow>
            key_at (m_slots t) p \<noteq> fst kv" by (simp add: stored_fresh)
        have "length (entries slots1) < length (entries (m_slots t))"
          using insert_loop_start [OF rh fresh kept(1)] by simp
        then show ?thesis using c1 by simp
      qed
    next
      case (placed slots1 r)
      then show ?thesis using full by simp
    next
      case (grew slots1 r)
      have ns: "\<not> stored t (fst kv)"
      proof
        assume "stored t (fst kv)"
        then obtain p where p: "p < m_capacity t" "occupied (m_slots t ! p)"
          "key_at (m_slots t) p = fst kv" unfolding stored_def by blast
        have "insert_loop (m_capacity t) (m_slots t) kv 0 (hashAndTrim hasher t (fst kv))
                = Inr (m_slots t, p, False)"
          using rh p
          by (intro insert_loop_present [where hm = "hashAndTrim hasher t" and j = 0])
             (simp_all add: hashAndTrim_less [OF wf])
        then show False using grew(1) by simp
      qed
      then have fresh: "\<forall>p < m_capacity t. occupied (m_slots t ! p) \<longrightarrow>
          key_at (m_slots t) p \<noteq> fst kv" by (simp add: stored_fresh)
      have c1: "length (entries slots1) \<le> Suc (m_size t)" using grew(8) sz by simp
      have ne: "m_slots t' \<noteq> []" using grew(5) find_key_empty [of t' hasher "fst kv"] by auto
      note g = grow_unfold [OF wf grew(7) c1 grew(2) grew(4) ne]
      then have bd: "m_size (grown t) + length (entries slots1) < m_max_elems (grown t)"
        by (simp add: grown_def)
      from g have rhs: "rehash (insert_depth n hasher) (grown t) slots1 = Inr t'"
        and wfg: "well_formed (grown t)" by blast+
      note r = rehash_well_formed [OF rhs wfg bd]
      have s1: "m_size t' \<le> length (entries slots1)" using r by (simp add: grown_def)
      have s2: "length (entries (m_slots t')) \<le> m_size t'"
        using r by (simp add: grown_def entries_empty)
      have c2: "length (entries (m_slots t')) = Suc (m_size t)" using cnt grew(3) sz by simp
      have e1: "length (entries slots1) = Suc (length (entries (m_slots t)))"
        using s1 s2 c2 c1 sz by linarith
      have e2: "length (entries (m_slots t')) = m_size t'" using s1 s2 c2 c1 by linarith
      from insert_loop_start [OF rh fresh grew(1)] e1
      have rh1: "robin_hood (m_capacity t) (hashAndTrim hasher t) slots1"
        and ms1: "mset (entries slots1) = add_mset kv (mset (entries (m_slots t)))"
        by blast+
      have d1: "distinct (map fst (entries slots1))" using rh1 by (rule robin_hood_distinct)
      have f1: "\<forall>kv \<in> set (entries slots1). \<not> stored (grown t) (fst kv)"
        by (simp add: stored_empty)
      from rehash_table_inv [OF rhs table_inv_grown [OF wfg] bd d1 f1 e2]
      have "table_inv hasher t'"
        and "mset (entries (m_slots t')) = mset (entries (m_slots (grown t))) + mset (entries slots1)"
        by blast+
      then show ?thesis using ms1 ns grew(3,5) by (simp add: grown_def entries_empty)
    qed
  qed
qed

lemma erase_cases:
  assumes wf: "well_formed t" and res: "erase hasher t key = Inr (t', n)"
  obtains (absent) "find_key hasher t key = Inr (m_capacity t)" "t' = t" "n = 0"
  | (removed) p v slots where "find_key hasher t key = Inr p" "p < m_capacity t"
      "occupied (m_slots t ! p)" "snd (m_slots t ! p) = Some (key, v)"
      "erase_loop (m_capacity t) (m_slots t) p (advance_wrap (m_capacity t) p) = Inr slots"
      "t' = t\<lparr>m_size := m_size t - 1, m_slots := slots\<rparr>" "n = 1" "0 < m_size t"
      "length slots = m_capacity t" "constructed slots"
      "Suc (length (entries slots)) = length (entries (m_slots t))"
proof -
  from wf have len: "length (m_slots t) = m_capacity t" and con: "constructed (m_slots t)"
    and c2: "1 < m_capacity t" and sz: "length (entries (m_slots t)) \<le> m_size t"
    and lt: "m_size t < 2 ^ 64"
    by (simp_all add: well_formed_def)
  obtain p where p: "find_key hasher t key = Inr p" "p \<le> m_capacity t"
    "p < m_capacity t \<longrightarrow> occupied (m_slots t ! p) \<and> (\<exists>v. snd (m_slots t ! p) = Some (key, v))"
    using find_result [OF wf] by blast
  show ?thesis
  proof (cases "p = m_capacity t")
    case True
    then show ?thesis using absent res p by (simp add: erase_def)
  next
    case False
    then have pl: "p < m_capacity t" using p(2) by simp
    then obtain v where v: "snd (m_slots t ! p) = Some (key, v)" and occ: "occupied (m_slots t ! p)"
      using p(3) by blast
    obtain slots where s: "erase_loop (m_capacity t) (m_slots t) p
        (advance_wrap (m_capacity t) p) = Inr slots"
      using erase_loop_returns [OF len pl advance_wrap_less [OF pl]] by blast
    note c = erase_loop_count [OF s len pl refl c2 occ con]
    then have pos: "0 < m_size t" using sz by simp
    have dec: "size_t (m_size t + 2 ^ 64 - 1) = m_size t - 1" using pos lt by (rule size_t_dec)
    have "erase hasher t key
            = Inr (t\<lparr>m_size := size_t (m_size t + 2 ^ 64 - 1), m_slots := slots\<rparr>, 1)"
      using p(1) False s by (simp add: erase_def)
    then have "t' = t\<lparr>m_size := m_size t - 1, m_slots := slots\<rparr>" "n = 1"
      using res unfolding dec by simp_all
    then show ?thesis using removed p(1) pl occ v s pos c by blast
  qed
qed

lemma erase_well_formed:
  assumes wf: "well_formed t" and res: "erase hasher t key = Inr (t', n)"
  shows "well_formed t' \<and> m_capacity t' = m_capacity t \<and> GROWTH_FACTOR t' = GROWTH_FACTOR t \<and>
         LOAD_FACTOR t' = LOAD_FACTOR t \<and> m_max_elems t' = m_max_elems t \<and>
         length (m_slots t') = length (m_slots t) \<and> m_size t' + n = m_size t \<and> n \<le> 1"
  using wf res
proof (cases rule: erase_cases)
  case absent
  then show ?thesis using wf by simp
next
  case (removed p v slots)
  have "m_size t < m_max_elems t" using wf by (simp add: well_formed_def)
  then have a: "m_size t - 1 < m_max_elems t" by linarith
  have "length (entries (m_slots t)) \<le> m_size t" using wf by (simp add: well_formed_def)
  then have b: "length (entries slots) \<le> m_size t - 1" using removed(11) by linarith
  have "well_formed (t\<lparr>m_size := m_size t - 1, m_slots := slots\<rparr>)"
    using wf removed(9,10) a b by (simp add: well_formed_def)
  then show ?thesis using removed wf by (simp add: well_formed_def)
qed

lemma erase_table_inv:
  assumes inv: "table_inv hasher t" and res: "erase hasher t key = Inr (t', n)"
  shows "table_inv hasher t' \<and> \<not> stored t' key \<and>
         (stored t key \<longrightarrow> n = 1 \<and>
            (\<exists>v. mset (entries (m_slots t)) = add_mset (key, v) (mset (entries (m_slots t'))))) \<and>
         (\<not> stored t key \<longrightarrow> n = 0 \<and> t' = t)"
proof -
  from inv have wf: "well_formed t"
    and rh: "robin_hood (m_capacity t) (hashAndTrim hasher t) (m_slots t)"
    and sz: "length (entries (m_slots t)) = m_size t"
    by (simp_all add: table_inv_def)
  from wf have len: "length (m_slots t) = m_capacity t" and c2: "1 < m_capacity t"
    by (simp_all add: well_formed_def)
  from wf res show ?thesis
  proof (cases rule: erase_cases)
    case absent
    have "\<not> stored t key"
    proof
      assume "stored t key"
      then obtain p where p: "p < m_capacity t" "occupied (m_slots t ! p)"
        "key_at (m_slots t) p = key" unfolding stored_def by blast
      then have "find_key hasher t key = Inr p" using inv by (intro find_present)
      then show False using absent(1) p(1) by simp
    qed
    then show ?thesis using absent inv by simp
  next
    case (removed p v slots)
    have st: "stored t key"
      unfolding stored_def key_at_def using removed(2,3,4) by force
    note h = robin_hood_hole [OF rh c2 removed(2)]
    from erase_loop_robin_hood [OF removed(5) refl h c2 removed(2)]
    have rh': "robin_hood (m_capacity t) (hashAndTrim hasher t) slots"
      and ms: "mset (entries slots) = mset (entries ((m_slots t)[p := (255, None)]))"
      by blast+
    have "mset (entries ((m_slots t)[p := (255, None)])) + {#(key, v)#} = mset (entries (m_slots t))"
      using entries_update [of p "m_slots t" "(255, None)"] removed(2,3,4) len
      by (simp add: occupied_def)
    then have ms': "mset (entries (m_slots t)) = add_mset (key, v) (mset (entries slots))"
      using ms by simp
    have wf': "well_formed t'" using erase_well_formed [OF wf res] by blast
    have t': "m_slots t' = slots" "m_capacity t' = m_capacity t"
      "m_capacity_dec t' = m_capacity_dec t" "m_size t' = m_size t - 1"
      using removed(6) by simp_all
    have "table_inv hasher t'"
      using wf' rh' t' removed(8,11) sz hashAndTrim_cong [OF t'(3), of hasher]
      by (simp add: table_inv_def)
    moreover have "\<not> stored t' key"
    proof -
      have "distinct (map fst (entries (m_slots t)))" using rh by (rule robin_hood_distinct)
      moreover have "mset (map fst (entries (m_slots t))) = add_mset key (mset (map fst (entries slots)))"
        using arg_cong [OF ms', of "image_mset fst"] by simp
      ultimately have "key \<notin> set (map fst (entries slots))"
        by (metis distinct.simps(2) mset.simps(2) mset_eq_imp_distinct_iff)
      moreover have "length (m_slots t') = m_capacity t'" using wf' by (simp add: well_formed_def)
      ultimately show ?thesis using stored_entries [of t' key] t'(1) by simp
    qed
    ultimately show ?thesis using st removed(7) ms' t'(1) by auto
  qed
qed

lemma unordered_map_fields:
  fixes t :: "('k, 'v) unordered_map"
  assumes "unordered_map sizeof_value lf ic gf = Inr t"
  shows "m_capacity t = unat (closestPowerOfTwo ic)"
    and "GROWTH_FACTOR t = unat (closestPowerOfTwo gf)"
    and "LOAD_FACTOR t = lf" and "ELEM_OFFSET t = Suc sizeof_value"
    and "INITIAL_CAPACITY t = m_capacity t"
    and "m_max_elems t = nat \<lfloor>real (m_capacity t) * lf\<rfloor>" and "m_max_elems t < 2 ^ 64"
    and "m_size t = 0" and "m_slots t = replicate (m_capacity t) (255, None)"
    and "m_capacity_dec t = size_t (m_capacity t + 2 ^ 64 - 1)"
    and "m_capacity t * ELEM_OFFSET t + 1 < 2 ^ 64"
proof -
  let ?ic = "unat (closestPowerOfTwo ic)"
  have "\<exists>mx. float_to_size (real ?ic * lf) = Inr mx"
    using assms by (cases "float_to_size (real ?ic * lf)") (auto simp: unordered_map_def Let_def)
  then obtain mx where f: "float_to_size (real ?ic * lf) = Inr mx" by blast
  have "\<exists>slots :: ('k, 'v) slot list. allocate (1 + sizeof_value) ?ic = Inr slots"
    using assms f by (cases "allocate (1 + sizeof_value) ?ic :: error + ('k, 'v) slot list")
      (auto simp: unordered_map_def Let_def)
  then obtain slots :: "('k, 'v) slot list" where a: "allocate (1 + sizeof_value) ?ic = Inr slots"
    by blast
  have t: "t = \<lparr>ELEM_OFFSET = 1 + sizeof_value, LOAD_FACTOR = lf, INITIAL_CAPACITY = ?ic,
                GROWTH_FACTOR = unat (closestPowerOfTwo gf),
                m_capacity_dec = size_t (?ic + 2 ^ 64 - 1), m_max_elems = mx,
                m_capacity = ?ic, m_size = 0, m_slots = slots\<rparr>"
    using assms f a by (simp add: unordered_map_def Let_def)
  have al: "?ic * (1 + sizeof_value) + 1 < 2 ^ 64"
    using a by (auto simp: allocate_def split: if_splits)
  show "m_capacity t = ?ic" "GROWTH_FACTOR t = unat (closestPowerOfTwo gf)"
    "LOAD_FACTOR t = lf" "ELEM_OFFSET t = Suc sizeof_value" "INITIAL_CAPACITY t = m_capacity t"
    "m_size t = 0" "m_capacity_dec t = size_t (m_capacity t + 2 ^ 64 - 1)"
    unfolding t by simp_all
  show "m_max_elems t = nat \<lfloor>real (m_capacity t) * lf\<rfloor>" "m_max_elems t < 2 ^ 64"
    unfolding t using float_to_size_Inr [OF f] by simp_all
  show "m_slots t = replicate (m_capacity t) (255, None)"
    unfolding t using allocate_Inr [OF a] by simp
  show "m_capacity t * ELEM_OFFSET t + 1 < 2 ^ 64" unfolding t using al by simp
qed

lemma unordered_map_table_inv:
  fixes t :: "('k, 'v) unordered_map"
  assumes c: "unordered_map sizeof_value lf ic gf = Inr t"
    and p: "is_pow2 (m_capacity t)" "2 \<le> m_capacity t"
      "is_pow2 (GROWTH_FACTOR t)" "2 \<le> GROWTH_FACTOR t"
    and lf: "0 \<le> lf" and mx: "0 < m_max_elems t"
  shows "table_inv hasher t"
proof -
  note f = unordered_map_fields [OF c]
  have lt: "m_capacity t < 2 ^ 64" unfolding f(1) using unsigned_less [of "closestPowerOfTwo ic"] by simp
  have pos: "0 < m_capacity t" using p(2) by simp
  have dec: "m_capacity_dec t = m_capacity t - 1"
    unfolding f(10) using pos lt by (rule size_t_dec)
  have wf: "well_formed t"
    unfolding well_formed_def
    using f(3,6,7,8) p lf mx lt dec
    by (simp add: f(9) constructed_def occupied_def entries_empty)
  have "robin_hood (m_capacity t) (hashAndTrim hasher t) (replicate (m_capacity t) (255, None))"
    using pos hashAndTrim_less [OF wf] by (intro robin_hood_empty) auto
  then show ?thesis using wf f(8) by (simp add: table_inv_def f(9) entries_empty)
qed

lemma insert_with_returns_no_growth:
  assumes wf: "well_formed t" and ng: "Suc (m_size t) \<noteq> m_max_elems t"
  shows "\<exists>res. insert_with ins hasher t kv = Inr res"
proof -
  obtain slots1 r b0 where r: "insert_loop (m_capacity t) (m_slots t) kv 0
        (hashAndTrim hasher t (fst kv)) = Inr (slots1, r, b0)"
    and con: "constructed slots1" and len: "length slots1 = m_capacity t"
    and cnt: "length (entries slots1) \<le> length (entries (m_slots t)) + (if b0 then 1 else 0)"
    using insert_loop_table [OF wf] by blast
  show ?thesis
  proof (cases b0)
    case False
    then show ?thesis using r by (auto simp: insert_with_def)
  next
    case True
    let ?t1 = "t\<lparr>m_size := Suc (m_size t), m_slots := slots1\<rparr>"
    have "Suc (m_size t) < m_max_elems t" using wf ng by (simp add: well_formed_def)
    then have "well_formed ?t1" using wf con len cnt True by (simp add: well_formed_def)
    then obtain it where "find_key hasher ?t1 (fst kv) = Inr it"
      using find_result [of ?t1 hasher "fst kv"] by blast
    then show ?thesis using r True ng size_Suc [OF wf] by (auto simp: insert_with_def Let_def)
  qed
qed

lemma rehash_returns:
  "well_formed t \<Longrightarrow> m_size t + length (entries rest) < m_max_elems t \<Longrightarrow>
   constructed rest \<Longrightarrow> \<exists>t'. rehash (insert_depth (Suc n) hasher) t rest = Inr t'"
proof (induction rest arbitrary: t)
  case Nil
  then show ?case by simp
next
  case (Cons x rest)
  obtain info e where x: "x = (info, e)" by (cases x)
  have con: "constructed rest" using Cons.prems(3) by (simp add: constructed_def)
  show ?case
  proof (cases "info = 255")
    case True
    then show ?thesis using Cons x con by (simp add: entries_Cons)
  next
    case False
    then obtain kv where e: "e = Some kv"
      using Cons.prems(3) x by (auto simp: constructed_def occupied_def)
    have len: "length (entries (x # rest)) = Suc (length (entries rest))"
      using x False by (simp add: entries_Cons)
    have ng: "Suc (m_size t) \<noteq> m_max_elems t" using Cons.prems(2) len by simp
    obtain t1 it b where iw: "insert_with (insert_depth n hasher) hasher t kv = Inr (t1, it, b)"
      using insert_with_returns_no_growth [OF Cons.prems(1) ng, of "insert_depth n hasher" hasher kv]
      by (metis prod_cases3)
    note st = insert_with_no_growth [OF Cons.prems(1) ng iw]
    then have wf1: "well_formed t1" and fr1: "t1\<lparr>m_size := m_size t, m_slots := m_slots t\<rparr> = t"
      and sz1: "m_size t1 = m_size t + (if b then 1 else 0)" by blast+
    have "m_size t1 + length (entries rest) < m_max_elems t1"
      using Cons.prems(2) len sz1 frame_fields(3) [OF fr1] by simp
    from Cons.IH [OF wf1 this con] obtain t' where
      "rehash (insert_depth (Suc n) hasher) t1 rest = Inr t'" by blast
    then show ?thesis using x False e iw by simp
  qed
qed

lemma insert_depth_returns:
  fixes t :: "('k, 'v) unordered_map"
  assumes wf: "well_formed t"
    and fit: "Suc (m_size t) = m_max_elems t \<longrightarrow>
       m_capacity t * GROWTH_FACTOR t * ELEM_OFFSET t + 1 < 2 ^ 64 \<and>
       m_capacity t * GROWTH_FACTOR t < 2 ^ 64 \<and>
       real (m_capacity t * GROWTH_FACTOR t) * LOAD_FACTOR t < 2 ^ 64"
  shows "\<exists>t' iter b. insert_depth (Suc (Suc n)) hasher t kv = Inr (t', iter, b)"
proof (cases "Suc (m_size t) = m_max_elems t")
  case False
  then show ?thesis
    using insert_with_returns_no_growth [OF wf False, of "insert_depth (Suc n) hasher" hasher kv]
    by (metis insert_depth.simps(2) prod_cases3)
next
  case full: True
  let ?cap = "m_capacity t" and ?g = "GROWTH_FACTOR t" and ?lf = "LOAD_FACTOR t"
  let ?ins = "insert_depth (Suc n) hasher"
  obtain slots1 r b0 where r: "insert_loop (m_capacity t) (m_slots t) kv 0
        (hashAndTrim hasher t (fst kv)) = Inr (slots1, r, b0)"
    and con: "constructed slots1" and len: "length slots1 = m_capacity t"
    and cnt: "length (entries slots1) \<le> length (entries (m_slots t)) + (if b0 then 1 else 0)"
    using insert_loop_table [OF wf] by blast
  show ?thesis
  proof (cases b0)
    case False
    then show ?thesis using r by (auto simp: insert_with_def)
  next
    case True
    let ?t1 = "t\<lparr>m_size := Suc (m_size t), m_slots := slots1\<rparr>"
    from wf have p2: "is_pow2 ?cap" "is_pow2 ?g" and c2: "2 \<le> ?cap" and g2: "2 \<le> ?g"
      and lf: "0 \<le> ?lf" and mx: "m_max_elems t = nat \<lfloor>real ?cap * ?lf\<rfloor>"
      and sz: "length (entries (m_slots t)) \<le> m_size t"
      by (simp_all add: well_formed_def)
    from fit full have a1: "?cap * ?g * ELEM_OFFSET t + 1 < 2 ^ 64" and a2: "?cap * ?g < 2 ^ 64"
      and a3: "real (?cap * ?g) * ?lf < 2 ^ 64" by blast+
    have c: "size_t (?cap * ?g) = ?cap * ?g" using a2 by (rule size_t_id)
    have "0 \<le> real (?cap * ?g) * ?lf" using lf by simp
    then have f: "float_to_size (real (?cap * ?g) * ?lf) = Inr (nat \<lfloor>real (?cap * ?g) * ?lf\<rfloor>)"
      using a3 by (simp add: float_to_size_def)
    have al: "(allocate (ELEM_OFFSET t) (?cap * ?g) :: error + ('k, 'v) slot list)
                = Inr (replicate (?cap * ?g) (255, None))"
      using a1 by (simp add: allocate_def)
    have cpos: "0 < ?cap * ?g" using c2 g2 by simp
    have dec: "size_t (?cap * ?g + 2 ^ 64 - 1) = ?cap * ?g - 1" using cpos a2 by (rule size_t_dec)
    have g: "grow ?ins ?t1 = rehash ?ins (grown t) slots1"
      unfolding grow_def Let_def using f al c dec len by (simp add: grown_def)
    have dbl: "2 * m_max_elems t \<le> nat \<lfloor>real (?cap * ?g) * ?lf\<rfloor>"
      unfolding mx using lf g2 by (rule floor_growth)
    have cnt1: "length (entries slots1) \<le> Suc (m_size t)" using cnt sz True by simp
    obtain t2 where gr: "grow ?ins ?t1 = Inr t2" and wf2: "well_formed t2"
    proof -
      have mpos: "0 < nat \<lfloor>real (?cap * ?g) * ?lf\<rfloor>" using dbl full by linarith
      have "2 * 2 \<le> ?cap * ?g" using c2 g2 by (rule mult_le_mono)
      then have big: "2 \<le> ?cap * ?g" by simp
      have mlt: "nat \<lfloor>real (?cap * ?g) * ?lf\<rfloor> < 2 ^ 64"
        using float_to_size_Inr [OF f] by simp
      have wfg: "well_formed (grown t)"
        unfolding well_formed_def
      proof (intro conjI)
        show "length (m_slots (grown t)) = m_capacity (grown t)" by (simp add: grown_def)
        show "is_pow2 (m_capacity (grown t))" using is_pow2_mult [OF p2] by (simp add: grown_def)
        show "2 \<le> m_capacity (grown t)" using big by (simp add: grown_def)
        show "m_capacity (grown t) < 2 ^ 64" using a2 by (simp add: grown_def)
        show "m_capacity_dec (grown t) = m_capacity (grown t) - 1" by (simp add: grown_def)
        show "is_pow2 (GROWTH_FACTOR (grown t))" using p2 by (simp add: grown_def)
        show "2 \<le> GROWTH_FACTOR (grown t)" using g2 by (simp add: grown_def)
        show "0 \<le> LOAD_FACTOR (grown t)" using lf by (simp add: grown_def)
        show "m_max_elems (grown t) = nat \<lfloor>real (m_capacity (grown t)) * LOAD_FACTOR (grown t)\<rfloor>"
          by (simp add: grown_def)
        show "m_max_elems (grown t) < 2 ^ 64" using mlt by (simp add: grown_def)
        show "m_size (grown t) < m_max_elems (grown t)" using mpos by (simp add: grown_def)
        show "constructed (m_slots (grown t))"
          by (simp add: grown_def constructed_def occupied_def)
        show "length (entries (m_slots (grown t))) \<le> m_size (grown t)"
          by (simp add: grown_def entries_empty)
      qed
      have "length (entries slots1) < nat \<lfloor>real (?cap * ?g) * ?lf\<rfloor>"
        using cnt1 full dbl by linarith
      then have bd: "m_size (grown t) + length (entries slots1) < m_max_elems (grown t)"
        by (simp add: grown_def)
      obtain t2 where rh: "rehash ?ins (grown t) slots1 = Inr t2"
        using rehash_returns [OF wfg bd con] by blast
      have w: "well_formed t2" using rehash_well_formed [OF rh wfg bd] by blast
      have "grow ?ins ?t1 = Inr t2" by (simp only: g rh)
      then show ?thesis using that w by blast
    qed
    obtain it where "find_key hasher t2 (fst kv) = Inr it"
      using find_result [OF wf2, of hasher "fst kv"] by blast
    then show ?thesis using r True full gr size_Suc [OF wf] by (auto simp: insert_with_def Let_def)
  qed
qed

declare skip_empty.simps [simp del] iterate_from.simps [simp del]

lemma entries_drop:
  "i < length slots \<Longrightarrow>
     entries (drop i slots)
       = (if occupied (slots ! i) then the (snd (slots ! i)) # entries (drop (Suc i) slots)
          else entries (drop (Suc i) slots))"
  using Cons_nth_drop_Suc [of i slots, symmetric] by (simp add: entries_Cons_occ)

lemma skip_empty_entries:
  "length (m_slots t) = m_capacity t \<Longrightarrow> i \<le> m_capacity t \<Longrightarrow>
     \<exists>j. skip_empty t i = Inr j \<and> i \<le> j \<and> j \<le> m_capacity t \<and>
         entries (drop i (m_slots t)) = entries (drop j (m_slots t)) \<and>
         (j < m_capacity t \<longrightarrow> occupied (m_slots t ! j))"
proof (induction "m_capacity t - i" arbitrary: i)
  case 0
  then have "i = m_capacity t" by simp
  then show ?case by (subst skip_empty.simps) (simp add: info_at_def)
next
  case (Suc n)
  then have i: "i < m_capacity t" by simp
  then have info: "info_at t i = Inr (fst (m_slots t ! i))"
    using Suc.prems by (simp add: info_at_def)
  show ?case
  proof (cases "fst (m_slots t ! i) = 255")
    case True
    have "n = m_capacity t - Suc i" using Suc.hyps(2) by simp
    from Suc.hyps(1) [OF this Suc.prems(1)] i
    obtain j where j: "skip_empty t (Suc i) = Inr j" "Suc i \<le> j" "j \<le> m_capacity t"
      "entries (drop (Suc i) (m_slots t)) = entries (drop j (m_slots t))"
      "j < m_capacity t \<longrightarrow> occupied (m_slots t ! j)" by auto
    have "entries (drop i (m_slots t)) = entries (drop (Suc i) (m_slots t))"
      using entries_drop [of i "m_slots t"] i Suc.prems(1) True by (simp add: occupied_def)
    then show ?thesis using j info True by (subst skip_empty.simps) auto
  next
    case False
    then show ?thesis using info i by (subst skip_empty.simps) (simp add: occupied_def)
  qed
qed

lemma iterate_from_entries:
  "length (m_slots t) = m_capacity t \<Longrightarrow> constructed (m_slots t) \<Longrightarrow> i \<le> m_capacity t \<Longrightarrow>
   (i < m_capacity t \<longrightarrow> occupied (m_slots t ! i)) \<Longrightarrow>
   iterate_from t i = Inr (entries (drop i (m_slots t)))"
proof (induction "m_capacity t - i" arbitrary: i rule: less_induct)
  case less
  show ?case
  proof (cases "i = m_capacity t")
    case True
    then show ?thesis using less.prems(1) by (subst iterate_from.simps) (simp add: entries_def)
  next
    case False
    then have i: "i < m_capacity t" using less.prems(3) by simp
    then have occ: "occupied (m_slots t ! i)" using less.prems(4) by simp
    then obtain kv where kv: "snd (m_slots t ! i) = Some kv"
      using constructed_nth [OF less.prems(2), of i] i less.prems(1) by auto
    obtain j where j: "skip_empty t (Suc i) = Inr j" "Suc i \<le> j" "j \<le> m_capacity t"
      "entries (drop (Suc i) (m_slots t)) = entries (drop j (m_slots t))"
      "j < m_capacity t \<longrightarrow> occupied (m_slots t ! j)"
      using skip_empty_entries [OF less.prems(1), of "Suc i"] i by auto
    have "m_capacity t - j < m_capacity t - i" using j(2) i by simp
    from less.hyps [OF this less.prems(1,2) j(3,5)]
    have rec: "iterate_from t j = Inr (entries (drop j (m_slots t)))" .
    have "entries (drop i (m_slots t)) = kv # entries (drop j (m_slots t))"
      using entries_drop [of i "m_slots t"] i less.prems(1) occ kv j(4) by simp
    then show ?thesis
      using False i less.prems(1) kv j(1) rec
      by (subst iterate_from.simps) (simp add: iter_incr_def)
  qed
qed

lemma begin_iter_skip: "begin_iter t = skip_empty t 0"
  by (subst skip_empty.simps) (simp add: begin_iter_def Iter_def iter_incr_def split: sum.splits)

lemma iterate_entries:
  assumes "well_formed t"
  shows "iterate t = Inr (entries (m_slots t))"
proof -
  have len: "length (m_slots t) = m_capacity t" and con: "constructed (m_slots t)"
    using assms by (simp_all add: well_formed_def)
  obtain j where j: "skip_empty t 0 = Inr j" "j \<le> m_capacity t"
    "entries (drop 0 (m_slots t)) = entries (drop j (m_slots t))"
    "j < m_capacity t \<longrightarrow> occupied (m_slots t ! j)"
    using skip_empty_entries [OF len, of 0] by auto
  have "iterate_from t j = Inr (entries (drop j (m_slots t)))"
    using len con j(2,4) by (rule iterate_from_entries)
  then show ?thesis using j(1,3) by (simp add: iterate_def begin_iter_skip)
qed

lemma end_iter_capacity: "end_iter t = Inr (m_capacity t)"
  by (simp add: end_iter_def Iter_def info_at_def)

lemma begin_iter_empty:
  assumes "well_formed t" "entries (m_slots t) = []"
  shows "begin_iter t = Inr (m_capacity t)"
proof -
  have len: "length (m_slots t) = m_capacity t" using assms by (simp add: well_formed_def)
  obtain j where j: "skip_empty t 0 = Inr j" "j \<le> m_capacity t"
    "entries (drop 0 (m_slots t)) = entries (drop j (m_slots t))"
    "j < m_capacity t \<longrightarrow> occupied (m_slots t ! j)"
    using skip_empty_entries [OF len, of 0] by auto
  have "\<not> j < m_capacity t"
  proof
    assume "j < m_capacity t"
    then have "entries (drop j (m_slots t)) \<noteq> []"
      using entries_drop [of j "m_slots t"] j(4) len by simp
    then show False using j(3) assms(2) by simp
  qed
  then show ?thesis using j(1,2) by (simp add: begin_iter_skip)
qed

subsection \<open>Sequences of operations\<close>

datatype ('k, 'v) operation = Insert 'k 'v | Erase 'k

fun apply_op ::
  "('k \<Rightarrow> nat) \<Rightarrow> ('k, 'v) unordered_map \<Rightarrow> ('k, 'v) operation \<Rightarrow> error + ('k, 'v) unordered_map" where
  "apply_op hasher t (Insert k v) =
     (case insert_pair hasher t (k, v) of Inl err \<Rightarrow> Inl err | Inr (t', iter, inserted) \<Rightarrow> Inr t')"
| "apply_op hasher t (Erase k) =
     (case erase hasher t k of Inl err \<Rightarrow> Inl err | Inr (t', n) \<Rightarrow> Inr t')"

fun run_ops ::
  "('k \<Rightarrow> nat) \<Rightarrow> ('k, 'v) unordered_map \<Rightarrow> ('k, 'v) operation list
     \<Rightarrow> error + ('k, 'v) unordered_map" where
  "run_ops hasher t [] = Inr t"
| "run_ops hasher t (x # xs) =
     (case apply_op hasher t x of Inl err \<Rightarrow> Inl err | Inr t' \<Rightarrow> run_ops hasher t' xs)"

text \<open>
  An insertion loses no pair when the number of occupied slots after it is the number
  before, plus one if it constructed a pair. A probe distance that reaches 255 is stored
  as the mark of an empty slot, and the pair of that slot is lost: this is what the
  condition excludes. A run of operations is lossless when each of its insertions is.
\<close>

definition lossless_insert ::
  "('k \<Rightarrow> nat) \<Rightarrow> ('k, 'v) unordered_map \<Rightarrow> 'k \<times> 'v \<Rightarrow> bool" where
  "lossless_insert hasher t kv \<longleftrightarrow>
     (case insert_pair hasher t kv of
        Inl err \<Rightarrow> True
      | Inr (t', iter, inserted) \<Rightarrow>
          length (entries (m_slots t'))
            = length (entries (m_slots t)) + (if inserted then 1 else 0))"

fun lossless :: "('k \<Rightarrow> nat) \<Rightarrow> ('k, 'v) unordered_map \<Rightarrow> ('k, 'v) operation list \<Rightarrow> bool" where
  "lossless hasher t [] \<longleftrightarrow> True"
| "lossless hasher t (x # xs) \<longleftrightarrow>
     (case x of Insert k v \<Rightarrow> lossless_insert hasher t (k, v) | Erase k \<Rightarrow> True) \<and>
     (case apply_op hasher t x of Inl err \<Rightarrow> True | Inr t' \<Rightarrow> lossless hasher t' xs)"

text \<open>What \<open>find(key)\<close> points to: the value of the slot, or nothing for \<open>end()\<close>.\<close>

definition lookup :: "('k \<Rightarrow> nat) \<Rightarrow> ('k, 'v) unordered_map \<Rightarrow> 'k \<Rightarrow> error + 'v option" where
  "lookup hasher t key =
     (case find_key hasher t key of
        Inl err \<Rightarrow> Inl err
      | Inr iter \<Rightarrow>
          if iter = m_capacity t then Inr None
          else Inr (map_option snd (snd (m_slots t ! iter))))"

lemma insert_pair_table_inv:
  assumes "table_inv hasher t" and "insert_pair hasher t kv = Inr (t', iter, b)"
    and "lossless_insert hasher t kv"
  shows "table_inv hasher t' \<and> find_key hasher t' (fst kv) = Inr iter \<and>
         (stored t (fst kv) \<longrightarrow> t' = t \<and> \<not> b) \<and>
         (\<not> stored t (fst kv) \<longrightarrow>
            b \<and> mset (entries (m_slots t')) = add_mset kv (mset (entries (m_slots t))))"
proof -
  have "insert_with (insert_depth 63 hasher) hasher t kv = Inr (t', iter, b)"
    using assms(2) by (simp add: insert_pair_def eval_nat_numeral)
  moreover have "length (entries (m_slots t')) = length (entries (m_slots t)) + (if b then 1 else 0)"
    using assms(2,3) by (simp add: lossless_insert_def)
  ultimately show ?thesis using assms(1) by (intro insert_with_table_inv)
qed

lemma insert_pair_well_formed:
  assumes "well_formed t" and "insert_pair hasher t kv = Inr (t', iter, b)"
  shows "well_formed t' \<and> GROWTH_FACTOR t' = GROWTH_FACTOR t \<and> LOAD_FACTOR t' = LOAD_FACTOR t \<and>
         ELEM_OFFSET t' = ELEM_OFFSET t \<and> INITIAL_CAPACITY t' = INITIAL_CAPACITY t \<and>
         m_capacity t' = (if b \<and> Suc (m_size t) = m_max_elems t
                          then m_capacity t * GROWTH_FACTOR t else m_capacity t) \<and>
         m_size t' \<le> m_size t + (if b then 1 else 0)"
proof -
  have "insert_with (insert_depth 63 hasher) hasher t kv = Inr (t', iter, b)"
    using assms(2) by (simp add: insert_pair_def eval_nat_numeral)
  with assms(1) show ?thesis by (rule insert_with_well_formed)
qed

lemma run_ops_table_inv:
  "table_inv hasher t \<Longrightarrow> run_ops hasher t ops = Inr t' \<Longrightarrow> lossless hasher t ops \<Longrightarrow>
     table_inv hasher t'"
proof (induction ops arbitrary: t)
  case Nil
  then show ?case by simp
next
  case (Cons x ops)
  obtain t1 where t1: "apply_op hasher t x = Inr t1" "run_ops hasher t1 ops = Inr t'"
    using Cons.prems(2) by (auto split: sum.splits)
  have l: "lossless hasher t1 ops" using Cons.prems(3) t1 by simp
  have "table_inv hasher t1"
  proof (cases x)
    case (Insert k v)
    then obtain it b where i: "insert_pair hasher t (k, v) = Inr (t1, it, b)"
      using t1(1) by (auto split: sum.splits)
    have "lossless_insert hasher t (k, v)" using Cons.prems(3) Insert by simp
    then show ?thesis using insert_pair_table_inv [OF Cons.prems(1) i] by blast
  next
    case (Erase k)
    then obtain n where "erase hasher t k = Inr (t1, n)"
      using t1(1) by (auto split: sum.splits)
    then show ?thesis using erase_table_inv [OF Cons.prems(1)] by blast
  qed
  then show ?case using Cons.IH t1(2) l by blast
qed

lemma set_of_add_mset:
  assumes "mset xs = add_mset x (mset ys)"
  shows "set xs = Set.insert x (set ys)"
proof -
  have "set_mset (mset xs) = set_mset (add_mset x (mset ys))" using assms by (rule arg_cong)
  then show ?thesis by simp
qed


lemma lookup_stored:
  assumes "table_inv hasher t" "(k, v) \<in> set (entries (m_slots t))"
  shows "\<exists>p < m_capacity t. find_key hasher t k = Inr p \<and> snd (m_slots t ! p) = Some (k, v)"
    and "lookup hasher t k = Inr (Some v)"
proof -
  from assms(1) have wf: "well_formed t" by (simp add: table_inv_def)
  then have len: "length (m_slots t) = m_capacity t" and con: "constructed (m_slots t)"
    by (simp_all add: well_formed_def)
  obtain p where p: "p < m_capacity t" "occupied (m_slots t ! p)" "the (snd (m_slots t ! p)) = (k, v)"
    using assms(2) entries_mem [of "(k, v)" "m_slots t"] len by auto
  then have s: "snd (m_slots t ! p) = Some (k, v)"
    using constructed_nth [OF con, of p] len by auto
  have f: "find_key hasher t k = Inr p"
    using assms(1) p(1,2) by (rule find_present) (simp add: key_at_def s)
  show "\<exists>p < m_capacity t. find_key hasher t k = Inr p \<and> snd (m_slots t ! p) = Some (k, v)"
    using p(1) f s by blast
  show "lookup hasher t k = Inr (Some v)" using f p(1) s by (simp add: lookup_def)
qed

subsection \<open>Concrete tables\<close>

text \<open>
  Tables of \<open>unordered_map<size_t, size_t>\<close> (\<open>sizeof(value_type) = 16\<close>) with the
  identity as the hasher, for the concrete runs below. \<open>table8\<close> is what
  \<open>unordered_map(0.75f, 8, 2)\<close> constructs.
\<close>

definition table8 :: "(nat, nat) unordered_map" where
  "table8 = \<lparr>ELEM_OFFSET = 17, LOAD_FACTOR = 3 / 4, INITIAL_CAPACITY = 8, GROWTH_FACTOR = 2,
     m_capacity_dec = 7, m_max_elems = 6, m_capacity = 8, m_size = 0,
     m_slots = [(255, None), (255, None), (255, None), (255, None),
                (255, None), (255, None), (255, None), (255, None)]\<rparr>"

text \<open>\<open>table8\<close> after \<open>insert({0, 10})\<close>.\<close>

definition table8_a :: "(nat, nat) unordered_map" where
  "table8_a = table8\<lparr>m_size := 1,
     m_slots := [(0, Some (0, 10)), (255, None), (255, None), (255, None),
                 (255, None), (255, None), (255, None), (255, None)]\<rparr>"

lemma replicate_numeral: "replicate (numeral n) x = x # replicate (pred_numeral n) x"
  by (simp add: numeral_eq_Suc)

lemma list_update_numeral: "(x # xs)[numeral n := v] = x # xs[pred_numeral n := v]"
  by (simp add: numeral_eq_Suc)

lemma insert_pair_unfold:
  "insert_pair hasher t kv = insert_with (insert_depth 63 hasher) hasher t kv"
proof -
  have "(64 :: nat) = Suc 63" by simp
  then show ?thesis unfolding insert_pair_def by (simp only: insert_depth.simps)
qed

lemma insert_depth_numeral:
  "insert_depth (numeral n) hasher = insert_with (insert_depth (pred_numeral n) hasher) hasher"
  by (simp add: numeral_eq_Suc)

lemmas run_simps = insert_pair_unfold insert_with_def insert_loop.simps find_key_def
  find_loop.simps hashAndTrim_def size_t_def advance_wrap_def list_update_numeral
  erase_def erase_loop.simps shift_back_def lookup_def

lemmas count_simps = lossless_insert_def entries_def occupied_def

lemma is_pow2_2: "is_pow2 2"
  unfolding is_pow2_def by (rule exI [of _ 1]) simp

lemma is_pow2_8: "is_pow2 8"
  unfolding is_pow2_def by (rule exI [of _ 3]) simp

lemma table8_new: "unordered_map 16 (3 / 4) 8 2 = Inr table8"
  by (simp add: unordered_map_def closestPowerOfTwo_def float_to_size_def allocate_def
      size_t_def table8_def replicate_numeral)

lemma table8_inv: "table_inv id table8"
  using table8_new
proof (rule unordered_map_table_inv)
  show "is_pow2 (m_capacity table8)" by (simp add: table8_def is_pow2_8)
  show "is_pow2 (GROWTH_FACTOR table8)" by (simp add: table8_def is_pow2_2)
qed (simp_all add: table8_def)

lemma table8_a_run: "run_ops id table8 [Insert 0 10] = Inr table8_a"
  by (simp add: run_simps table8_def table8_a_def)

lemma table8_a_lossless: "lossless id table8 [Insert 0 10]"
  by (simp add: run_simps count_simps table8_def)

lemma table8_a_inv: "table_inv id table8_a"
  using table8_inv table8_a_run table8_a_lossless by (rule run_ops_table_inv)

lemma table8_a_entries: "entries (m_slots table8_a) = [(0, 10)]"
  by (simp add: entries_def occupied_def table8_a_def)

lemma stored_iff_key:
  "well_formed t \<Longrightarrow> stored t key \<longleftrightarrow> key \<in> fst ` set (entries (m_slots t))"
  by (rule stored_entries) (simp add: well_formed_def)

lemma erase_returns:
  assumes "well_formed t"
  shows "\<exists>t' n. erase hasher t key = Inr (t', n)"
proof -
  have len: "length (m_slots t) = m_capacity t" using assms by (simp add: well_formed_def)
  obtain r where r: "find_key hasher t key = Inr r" "r \<le> m_capacity t"
    using find_result [OF assms, of hasher key] by blast
  show ?thesis
  proof (cases "r = m_capacity t")
    case True
    then show ?thesis using r by (simp add: erase_def)
  next
    case False
    then have "r < m_capacity t" using r(2) by simp
    then obtain s' where
      "erase_loop (m_capacity t) (m_slots t) r (advance_wrap (m_capacity t) r) = Inr s'"
      using erase_loop_returns [OF len, of r "advance_wrap (m_capacity t) r"]
        advance_wrap_less [of r "m_capacity t"] by blast
    then show ?thesis using r False by (simp add: erase_def)
  qed
qed

text \<open>\<open>table4\<close> is what \<open>unordered_map(0.75f, 4, 2)\<close> constructs.\<close>

definition table4 :: "(nat, nat) unordered_map" where
  "table4 = \<lparr>ELEM_OFFSET = 17, LOAD_FACTOR = 3 / 4, INITIAL_CAPACITY = 4, GROWTH_FACTOR = 2,
     m_capacity_dec = 3, m_max_elems = 3, m_capacity = 4, m_size = 0,
     m_slots = [(255, None), (255, None), (255, None), (255, None)]\<rparr>"

text \<open>\<open>table2_low\<close> is what \<open>unordered_map(0.125f, 2, 2)\<close> constructs.\<close>

definition table2_low :: "(nat, nat) unordered_map" where
  "table2_low = \<lparr>ELEM_OFFSET = 17, LOAD_FACTOR = 1 / 8, INITIAL_CAPACITY = 2, GROWTH_FACTOR = 2,
     m_capacity_dec = 1, m_max_elems = 0, m_capacity = 2, m_size = 0,
     m_slots = [(255, None), (255, None)]\<rparr>"


lemmas new_simps = unordered_map_def closestPowerOfTwo_def float_to_size_def allocate_def
  size_t_def replicate_numeral

lemmas grow_simps = grow_def allocate_def float_to_size_def insert_depth_numeral replicate_numeral

lemma is_pow2_4: "is_pow2 4"
  unfolding is_pow2_def by (rule exI [of _ 2]) simp

lemma table4_new: "unordered_map 16 (3 / 4) 4 2 = Inr table4"
  by (simp add: new_simps table4_def)

lemma table4_inv: "table_inv id table4"
  using table4_new
proof (rule unordered_map_table_inv)
  show "is_pow2 (m_capacity table4)" by (simp add: table4_def is_pow2_4)
  show "is_pow2 (GROWTH_FACTOR table4)" by (simp add: table4_def is_pow2_2)
qed (simp_all add: table4_def)

subsection \<open>The capacity over a run of operations\<close>

fun is_insert :: "('k, 'v) operation \<Rightarrow> bool" where
  "is_insert (Insert k v) = True"
| "is_insert (Erase k) = False"

lemma apply_op_well_formed:
  assumes "well_formed t" and "apply_op hasher t x = Inr t'"
  shows "well_formed t' \<and> GROWTH_FACTOR t' = GROWTH_FACTOR t \<and> LOAD_FACTOR t' = LOAD_FACTOR t \<and>
         (m_capacity t' = m_capacity t \<or>
            is_insert x \<and> m_capacity t' = m_capacity t * GROWTH_FACTOR t)"
proof (cases x)
  case (Insert k v)
  then obtain it b where "insert_pair hasher t (k, v) = Inr (t', it, b)"
    using assms(2) by (auto split: sum.splits)
  then show ?thesis using insert_pair_well_formed [OF assms(1)] Insert by (auto split: if_splits)
next
  case (Erase k)
  then obtain n where "erase hasher t k = Inr (t', n)"
    using assms(2) by (auto split: sum.splits)
  then show ?thesis using erase_well_formed [OF assms(1)] by blast
qed

lemma run_ops_well_formed:
  "well_formed t \<Longrightarrow> run_ops hasher t ops = Inr t' \<Longrightarrow>
     well_formed t' \<and> GROWTH_FACTOR t' = GROWTH_FACTOR t \<and> LOAD_FACTOR t' = LOAD_FACTOR t \<and>
     (\<exists>j \<le> length (filter is_insert ops). m_capacity t' = m_capacity t * GROWTH_FACTOR t ^ j)"
proof (induction ops arbitrary: t)
  case Nil
  then show ?case by simp
next
  case (Cons x ops)
  obtain t1 where t1: "apply_op hasher t x = Inr t1" "run_ops hasher t1 ops = Inr t'"
    using Cons.prems(2) by (auto split: sum.splits)
  note s = apply_op_well_formed [OF Cons.prems(1) t1(1)]
  then have wf1: "well_formed t1" and g: "GROWTH_FACTOR t1 = GROWTH_FACTOR t" by simp_all
  from Cons.IH [OF wf1 t1(2)] obtain j where j: "j \<le> length (filter is_insert ops)"
    "m_capacity t' = m_capacity t1 * GROWTH_FACTOR t1 ^ j"
    and r: "well_formed t'" "GROWTH_FACTOR t' = GROWTH_FACTOR t1" "LOAD_FACTOR t' = LOAD_FACTOR t1"
    by blast
  have "\<exists>i \<le> length (filter is_insert (x # ops)). m_capacity t' = m_capacity t * GROWTH_FACTOR t ^ i"
  proof (cases "m_capacity t1 = m_capacity t")
    case True
    then have "m_capacity t' = m_capacity t * GROWTH_FACTOR t ^ j" using j(2) g by simp
    moreover have "j \<le> length (filter is_insert (x # ops))" using j(1) by simp
    ultimately show ?thesis by blast
  next
    case False
    then have "is_insert x" and "m_capacity t1 = m_capacity t * GROWTH_FACTOR t" using s by auto
    then have "m_capacity t' = m_capacity t * GROWTH_FACTOR t ^ Suc j"
      and "Suc j \<le> length (filter is_insert (x # ops))" using j g by simp_all
    then show ?thesis by blast
  qed
  then show ?case using r s by simp
qed






subsection \<open>Runs of insertions\<close>

definition insert_all :: "('k \<times> 'v) list \<Rightarrow> ('k, 'v) operation list" where
  "insert_all kvs = map (\<lambda>(k, v). Insert k v) kvs"

text \<open>\<open>table4\<close> after the insertion of the keys 0, 1 and 2, the third of which grows it.\<close>

definition table4_c :: "(nat, nat) unordered_map" where
  "table4_c = table4\<lparr>m_capacity_dec := 7, m_max_elems := 6, m_capacity := 8, m_size := 3,
     m_slots := [(0, Some (0, 10)), (0, Some (1, 11)), (0, Some (2, 12)), (255, None),
                 (255, None), (255, None), (255, None), (255, None)]\<rparr>"

lemma run_ops_append:
  "run_ops hasher t (xs @ ys) =
     (case run_ops hasher t xs of Inl err \<Rightarrow> Inl err | Inr t1 \<Rightarrow> run_ops hasher t1 ys)"
  by (induction xs arbitrary: t) (auto split: sum.splits)

lemma lossless_append:
  "lossless hasher t (xs @ ys) \<longleftrightarrow>
     lossless hasher t xs \<and>
     (case run_ops hasher t xs of Inl err \<Rightarrow> True | Inr t1 \<Rightarrow> lossless hasher t1 ys)"
  by (induction xs arbitrary: t) (auto split: sum.splits)

lemma run_inserts:
  "table_inv hasher t \<Longrightarrow> run_ops hasher t (insert_all kvs) = Inr t' \<Longrightarrow>
   lossless hasher t (insert_all kvs) \<Longrightarrow> distinct (map fst kvs) \<Longrightarrow>
   \<forall>kv \<in> set kvs. \<not> stored t (fst kv) \<Longrightarrow>
     table_inv hasher t' \<and>
     mset (entries (m_slots t')) = mset kvs + mset (entries (m_slots t)) \<and>
     (m_size t + length kvs < m_max_elems t \<longrightarrow>
        m_capacity t' = m_capacity t \<and> m_max_elems t' = m_max_elems t)"
proof (induction kvs arbitrary: t)
  case Nil
  then show ?case by (simp add: insert_all_def)
next
  case (Cons kv kvs)
  obtain k v where kv: "kv = (k, v)" by (cases kv)
  from Cons.prems(1) have wf: "well_formed t" and sz: "length (entries (m_slots t)) = m_size t"
    by (simp_all add: table_inv_def)
  obtain t1 it b where i: "insert_pair hasher t (k, v) = Inr (t1, it, b)"
    and r: "run_ops hasher t1 (insert_all kvs) = Inr t'"
    using Cons.prems(2) kv by (auto simp: insert_all_def split: sum.splits)
  have li: "lossless_insert hasher t (k, v)" and l: "lossless hasher t1 (insert_all kvs)"
    using Cons.prems(3) kv i by (simp_all add: insert_all_def)
  have ns: "\<not> stored t k" using Cons.prems(5) kv by simp
  note st = insert_pair_table_inv [OF Cons.prems(1) i li]
  then have inv1: "table_inv hasher t1" and b: "b"
    and m1: "mset (entries (m_slots t1)) = add_mset (k, v) (mset (entries (m_slots t)))"
    using ns by simp_all
  then have wf1: "well_formed t1" and sz1: "length (entries (m_slots t1)) = m_size t1"
    by (simp_all add: table_inv_def)
  have s1: "set (entries (m_slots t1)) = Set.insert (k, v) (set (entries (m_slots t)))"
    using m1 by (rule set_of_add_mset)
  have ns1: "\<forall>kv' \<in> set kvs. \<not> stored t1 (fst kv')"
  proof
    fix kv' assume kv': "kv' \<in> set kvs"
    then have "fst kv' \<noteq> k" using Cons.prems(4) kv by auto
    moreover have "\<not> stored t (fst kv')" using Cons.prems(5) kv' by simp
    ultimately show "\<not> stored t1 (fst kv')"
      using s1 by (auto simp: stored_iff_key [OF wf] stored_iff_key [OF wf1])
  qed
  have d: "distinct (map fst kvs)" using Cons.prems(4) by simp
  note ih = Cons.IH [OF inv1 r l d ns1]
  have "mset (entries (m_slots t')) = mset (kv # kvs) + mset (entries (m_slots t))"
    using ih m1 kv by simp
  moreover have "m_capacity t' = m_capacity t \<and> m_max_elems t' = m_max_elems t"
    if lt: "m_size t + length (kv # kvs) < m_max_elems t"
  proof -
    note w = insert_pair_well_formed [OF wf i]
    have ng: "Suc (m_size t) \<noteq> m_max_elems t" using lt by simp
    then have c: "m_capacity t1 = m_capacity t" and lf: "LOAD_FACTOR t1 = LOAD_FACTOR t"
      using w by simp_all
    have mx: "m_max_elems t1 = m_max_elems t"
      using wf wf1 c lf by (simp add: well_formed_def)
    have "size (mset (entries (m_slots t1))) = Suc (size (mset (entries (m_slots t))))"
      using m1 by simp
    then have "m_size t1 = Suc (m_size t)" using sz sz1 by simp
    then have "m_size t1 + length kvs < m_max_elems t1" using lt mx by simp
    then show ?thesis using ih c mx by simp
  qed
  ultimately show ?case using ih by blast
qed

lemma insert_all_take: "insert_all (take n kvs) = take n (insert_all kvs)"
  by (simp add: insert_all_def take_map)

lemma lossless_take:
  assumes "lossless hasher t ops"
  shows "lossless hasher t (take n ops)"
proof -
  have "lossless hasher t (take n ops @ drop n ops)" using assms by simp
  then show ?thesis unfolding lossless_append by blast
qed

lemmas iter_simps = iterate_def begin_iter_def end_iter_def Iter_def info_at_def iter_incr_def
  skip_empty.simps iterate_from.simps

lemma table4_c_run:
  "run_ops id table4 (insert_all [(0, 10), (1, 11), (2, 12)]) = Inr table4_c"
  by (simp add: insert_all_def run_simps grow_simps table4_def table4_c_def)

lemma table4_c_lossless: "lossless id table4 (insert_all [(0, 10), (1, 11), (2, 12)])"
  by (simp add: insert_all_def run_simps grow_simps count_simps table4_def)

lemma table4_entries: "entries (m_slots table4) = []"
  by (simp add: entries_def occupied_def table4_def)

subsection \<open>The probing loops with a budget of rounds\<close>














subsection \<open>The depth of \<open>insert\<close> inside \<open>grow\<close>\<close>

lemma rehash_mono:
  assumes "\<And>t kv r. ins t kv = Inr r \<Longrightarrow> ins' t kv = Inr r"
  shows "rehash ins t slots = Inr t' \<Longrightarrow> rehash ins' t slots = Inr t'"
proof (induction slots arbitrary: t)
  case Nil
  then show ?case by simp
next
  case (Cons x slots)
  obtain info e where x: "x = (info, e)" by (cases x)
  show ?case
  proof (cases "info = 255")
    case True
    then show ?thesis using Cons x by simp
  next
    case False
    then obtain kv where e: "e = Some kv" using Cons.prems x by (cases e) auto
    obtain t1 it b where i: "ins t kv = Inr (t1, it, b)" and r: "rehash ins t1 slots = Inr t'"
      using Cons.prems x False e by (auto split: sum.splits)
    have "ins' t kv = Inr (t1, it, b)" using i by (rule assms)
    then show ?thesis using Cons.IH [OF r] x False e by simp
  qed
qed

lemma insert_with_mono:
  assumes "\<And>t kv r. ins t kv = Inr r \<Longrightarrow> ins' t kv = Inr r"
    and "insert_with ins hasher t kv = Inr r"
  shows "insert_with ins' hasher t kv = Inr r"
proof -
  have g: "grow ins' t1 = Inr t2" if "grow ins t1 = Inr t2" for t1 t2
    using that rehash_mono [of ins ins', OF assms(1)]
    by (auto simp: grow_def Let_def split: sum.splits)
  show ?thesis
    using assms(2) g
    by (auto simp: insert_with_def Let_def split: sum.splits prod.splits if_splits)
qed

lemma insert_depth_mono:
  fixes t :: "('k, 'v) unordered_map"
  shows "insert_depth n hasher t kv = Inr r \<Longrightarrow> insert_depth (n + m) hasher t kv = Inr r"
proof (induction n arbitrary: t kv r)
  case 0
  then show ?case by simp
next
  case (Suc n)
  have "insert_with (insert_depth (n + m) hasher) hasher t kv = Inr r"
  proof (rule insert_with_mono)
    show "insert_with (insert_depth n hasher) hasher t kv = Inr r" using Suc.prems by simp
    show "insert_depth (n + m) hasher t' kv' = Inr r'"
      if "insert_depth n hasher t' kv' = Inr r'" for t' :: "('k, 'v) unordered_map" and kv' r'
      using that by (rule Suc.IH)
  qed
  then show ?case by simp
qed

text \<open>\<open>table4\<close> after the insertion of the keys 0 and 1.\<close>

definition table4_b :: "(nat, nat) unordered_map" where
  "table4_b = table4\<lparr>m_size := 2,
     m_slots := [(0, Some (0, 10)), (0, Some (1, 11)), (255, None), (255, None)]\<rparr>"

lemma table4_b_run: "run_ops id table4 [Insert 0 10, Insert 1 11] = Inr table4_b"
  by (simp add: run_simps table4_def table4_b_def)

lemma table4_b_lossless: "lossless id table4 [Insert 0 10, Insert 1 11]"
  by (simp add: run_simps count_simps table4_def)

lemma table4_b_inv: "table_inv id table4_b"
  using table4_inv table4_b_run table4_b_lossless by (rule run_ops_table_inv)

lemma insert_pair_depth_2:
  fixes t :: "('k, 'v) unordered_map"
  assumes "insert_depth 2 hasher t kv = Inr r"
  shows "insert_pair hasher t kv = Inr r"
proof -
  have "insert_depth (2 + 62) hasher t kv = Inr r" using assms by (rule insert_depth_mono)
  then show ?thesis by (simp add: insert_pair_def)
qed

text \<open>
  The first half of \<open>grow\<close> (map.h 261-275): the new capacity, mask and threshold and
  the new buffer with all slots empty, before the old slots are reinserted.
\<close>

definition grow_alloc :: "('k, 'v) unordered_map \<Rightarrow> error + ('k, 'v) unordered_map" where
  "grow_alloc t =
     (let cap = size_t (m_capacity t * GROWTH_FACTOR t)
      in case float_to_size (real cap * LOAD_FACTOR t) of
           Inl err \<Rightarrow> Inl err
         | Inr max_elems \<Rightarrow>
             (case allocate (ELEM_OFFSET t) cap of
                Inl err \<Rightarrow> Inl err
              | Inr slots \<Rightarrow>
                  Inr (t\<lparr>m_capacity_dec := size_t (cap + 2 ^ 64 - 1), m_max_elems := max_elems,
                         m_capacity := cap, m_size := 0, m_slots := slots\<rparr>)))"

lemma grow_alloc_rehash:
  "grow ins t =
     (case grow_alloc t of
        Inl err \<Rightarrow> Inl err
      | Inr t' \<Rightarrow> rehash ins t' (take (m_capacity t) (m_slots t)))"
  by (simp add: grow_def grow_alloc_def Let_def split: sum.splits)

text \<open>\<open>table2_wide\<close> is what \<open>unordered_map(0.75f, 2, 9223372036854775808)\<close> constructs.\<close>

definition table2_wide :: "(nat, nat) unordered_map" where
  "table2_wide = \<lparr>ELEM_OFFSET = 17, LOAD_FACTOR = 3 / 4, INITIAL_CAPACITY = 2,
     GROWTH_FACTOR = 9223372036854775808,
     m_capacity_dec = 1, m_max_elems = 1, m_capacity = 2, m_size = 0,
     m_slots = [(255, None), (255, None)]\<rparr>"


lemma table2_wide_new: "unordered_map 16 (3 / 4) 2 9223372036854775808 = Inr table2_wide"
  by (simp add: new_simps table2_wide_def)







subsection \<open>Bounds on the rounds of the loops that hold in every state\<close>






subsection \<open>256 keys with one home slot\<close>

text \<open>
  \<open>table512\<close> is what \<open>unordered_map(0.75f, 512, 2)\<close> constructs. The keys \<open>512 * j\<close>
  all have the home slot 0 there; \<open>colliding n\<close> are the first \<open>n\<close> of them, each with
  the value \<open>j\<close>. \<open>chain n\<close> is the buffer in which the slots 0 to \<open>n - 1\<close> hold these
  pairs in order, the slot \<open>j\<close> with the info byte \<open>uint8_t(j)\<close>.
\<close>

definition table512 :: "(nat, nat) unordered_map" where
  "table512 = \<lparr>ELEM_OFFSET = 17, LOAD_FACTOR = 3 / 4, INITIAL_CAPACITY = 512, GROWTH_FACTOR = 2,
     m_capacity_dec = 511, m_max_elems = 384, m_capacity = 512, m_size = 0,
     m_slots = replicate 512 (255, None)\<rparr>"

definition colliding :: "nat \<Rightarrow> (nat \<times> nat) list" where
  "colliding n = map (\<lambda>j. (512 * j, j)) [0..<n]"

definition chain :: "nat \<Rightarrow> (nat, nat) slot list" where
  "chain n = map (\<lambda>j. (of_nat j, Some (512 * j, j))) [0..<n] @ replicate (512 - n) (255, None)"

definition collided :: "nat \<Rightarrow> (nat, nat) unordered_map" where
  "collided n = table512\<lparr>m_size := n, m_slots := chain n\<rparr>"

lemma table512_new: "unordered_map 16 (3 / 4) 512 2 = Inr table512"
  by (simp add: unordered_map_def closestPowerOfTwo_def float_to_size_def allocate_def
      size_t_def table512_def)

lemma is_pow2_512: "is_pow2 512"
  unfolding is_pow2_def by (rule exI [of _ 9]) simp

lemma table512_inv: "table_inv id table512"
  using table512_new
proof (rule unordered_map_table_inv)
  show "is_pow2 (m_capacity table512)" by (simp add: table512_def is_pow2_512)
  show "is_pow2 (GROWTH_FACTOR table512)" by (simp add: table512_def is_pow2_2)
qed (simp_all add: table512_def)

lemma collided_0: "collided 0 = table512"
  by (simp add: collided_def chain_def table512_def)

lemma length_chain: "n \<le> 512 \<Longrightarrow> length (chain n) = 512"
  by (simp add: chain_def)

lemma chain_nth_below: "j < n \<Longrightarrow> chain n ! j = (of_nat j, Some (512 * j, j))"
  by (simp add: chain_def nth_append)

lemma chain_nth_above: "n \<le> j \<Longrightarrow> j < 512 \<Longrightarrow> chain n ! j = (255, None)"
  by (simp add: chain_def nth_append)

lemma chain_Suc:
  assumes "n < 512"
  shows "(chain n)[n := (of_nat n, Some (512 * n, n))] = chain (Suc n)"
proof (rule nth_equalityI)
  show "length ((chain n)[n := (of_nat n, Some (512 * n, n))]) = length (chain (Suc n))"
    using assms by (simp add: length_chain)
  fix i assume "i < length ((chain n)[n := (of_nat n, Some (512 * n, n))])"
  then have i: "i < 512" using assms by (simp add: length_chain)
  consider "i < n" | "i = n" | "n < i" by linarith
  then show "(chain n)[n := (of_nat n, Some (512 * n, n))] ! i = chain (Suc n) ! i"
  proof cases
    case 1
    then show ?thesis by (simp add: chain_nth_below)
  next
    case 2
    then show ?thesis using assms by (simp add: chain_nth_below length_chain)
  next
    case 3
    then show ?thesis using i by (simp add: chain_nth_above)
  qed
qed

lemma tag_of_nat:
  assumes "j < 256"
  shows "unat (of_nat j :: 8 word) = j"
  using assms by (simp add: unat_of_nat)

lemma tag_of_nat_neq:
  assumes "j < 255"
  shows "(of_nat j :: 8 word) \<noteq> 255"
proof
  assume "(of_nat j :: 8 word) = 255"
  then have "unat (of_nat j :: 8 word) = unat (255 :: 8 word)" by simp
  then show False using assms tag_of_nat [of j] by simp
qed

lemma tag_of_nat_Suc: "(of_nat j :: 8 word) + 1 = of_nat (Suc j)"
  by simp

lemma insert_chain:
  assumes "n \<le> 255"
  shows "j \<le> n \<Longrightarrow>
           insert_loop 512 (chain n) (512 * n, n) (of_nat j) j = Inr (chain (Suc n), n, True)"
proof (induction "n - j" arbitrary: j)
  case 0
  then have j: "j = n" by simp
  have "chain n ! n = (255, None)" using assms by (intro chain_nth_above) simp_all
  then show ?case
    using assms j chain_Suc [of n]
    by (subst insert_loop.simps) (simp add: length_chain)
next
  case (Suc d)
  then have j: "j < n" "Suc j \<le> n" "d = n - Suc j" by simp_all
  have s: "chain n ! j = (of_nat j, Some (512 * j, j))" using j(1) by (rule chain_nth_below)
  have t: "(of_nat j :: 8 word) \<noteq> 255" using j(1) assms by (intro tag_of_nat_neq) simp
  have a: "advance_wrap 512 j = Suc j" using j(1) assms by (simp add: advance_wrap_def)
  have "insert_loop 512 (chain n) (512 * n, n) (of_nat j) j
          = insert_loop 512 (chain n) (512 * n, n) (of_nat j + 1) (advance_wrap 512 j)"
    using assms j(1) s t by (subst insert_loop.simps) (simp add: length_chain)
  also have "\<dots> = insert_loop 512 (chain n) (512 * n, n) (of_nat (Suc j)) (Suc j)"
    by (simp only: a tag_of_nat_Suc)
  also have "\<dots> = Inr (chain (Suc n), n, True)" using j(3,2) by (rule Suc.hyps(1))
  finally show ?case .
qed

lemma find_chain:
  assumes "n \<le> 255"
  shows "j \<le> n \<Longrightarrow>
           find_loop 512 (chain (Suc n)) (512 * n) (of_nat j) j
             = Inr (if n = 255 then 512 else n)"
proof (induction "n - j" arbitrary: j)
  case 0
  then have j: "j = n" by simp
  have s: "chain (Suc n) ! n = (of_nat n, Some (512 * n, n))" by (intro chain_nth_below) simp
  show ?case
  proof (cases "n = 255")
    case True
    then show ?thesis using j s by (subst find_loop.simps) (simp add: length_chain)
  next
    case False
    then have "(of_nat n :: 8 word) \<noteq> 255" using assms by (intro tag_of_nat_neq) simp
    then show ?thesis using assms j s False by (subst find_loop.simps) (simp add: length_chain)
  qed
next
  case (Suc d)
  then have j: "j < n" "Suc j \<le> n" "d = n - Suc j" by simp_all
  have s: "chain (Suc n) ! j = (of_nat j, Some (512 * j, j))" using j(1) by (intro chain_nth_below) simp
  have t: "(of_nat j :: 8 word) \<noteq> 255" using j(1) assms by (intro tag_of_nat_neq) simp
  have a: "advance_wrap 512 j = Suc j" using j(1) assms by (simp add: advance_wrap_def)
  have "find_loop 512 (chain (Suc n)) (512 * n) (of_nat j) j
          = find_loop 512 (chain (Suc n)) (512 * n) (of_nat j + 1) (advance_wrap 512 j)"
    using assms j(1) s t by (subst find_loop.simps) (simp add: length_chain)
  also have "\<dots> = find_loop 512 (chain (Suc n)) (512 * n) (of_nat (Suc j)) (Suc j)"
    by (simp only: a tag_of_nat_Suc)
  also have "\<dots> = Inr (if n = 255 then 512 else n)" using j(3,2) by (rule Suc.hyps(1))
  finally show ?case .
qed

lemma home_slot_0: "(512 * j) AND (511 :: nat) = 0"
proof -
  have "(511 :: nat) = mask 9" by (simp add: mask_eq_exp_minus_1)
  then have "(512 * j) AND (511 :: nat) = take_bit 9 (512 * j)" by (simp add: take_bit_eq_mask)
  also have "\<dots> = 0" by (simp add: take_bit_eq_mod)
  finally show ?thesis .
qed

lemma insert_collided:
  assumes "n \<le> 255"
  shows "insert_pair id (collided n) (512 * n, n)
           = Inr (collided (Suc n), if n = 255 then 512 else n, True)"
proof -
  have i: "insert_loop 512 (chain n) (512 * n, n) 0 0 = Inr (chain (Suc n), n, True)"
    using insert_chain [OF assms, of 0] by simp
  have f: "find_loop 512 (chain (Suc n)) (512 * n) 0 0 = Inr (if n = 255 then 512 else n)"
    using find_chain [OF assms, of 0] by simp
  have s: "size_t (Suc n) = Suc n" using assms by (intro size_t_id) simp
  have c: "collided n\<lparr>m_size := Suc n, m_slots := chain (Suc n)\<rparr> = collided (Suc n)"
    by (simp add: collided_def)
  show ?thesis
    unfolding insert_pair_unfold insert_with_def
    using assms i f s c
    by (simp add: hashAndTrim_def find_key_def home_slot_0 collided_def table512_def)
qed

lemma colliding_Suc: "colliding (Suc n) = colliding n @ [(512 * n, n)]"
  by (simp add: colliding_def)

lemma run_collided:
  "n \<le> 256 \<Longrightarrow> run_ops id table512 (insert_all (colliding n)) = Inr (collided n)"
proof (induction n)
  case 0
  then show ?case by (simp add: colliding_def insert_all_def collided_0)
next
  case (Suc n)
  from Suc.prems have n: "n \<le> 255" by simp
  then have "n \<le> 256" by simp
  then have r: "run_ops id table512 (insert_all (colliding n)) = Inr (collided n)"
    by (rule Suc.IH)
  have ia: "insert_all (colliding (Suc n)) = insert_all (colliding n) @ [Insert (512 * n) n]"
    by (simp add: colliding_Suc insert_all_def)
  have "run_ops id table512 (insert_all (colliding (Suc n)))
          = (case run_ops id table512 (insert_all (colliding n)) of
               Inl err \<Rightarrow> Inl err
             | Inr t1 \<Rightarrow> run_ops id t1 [Insert (512 * n) n])"
    unfolding ia by (rule run_ops_append)
  also have "\<dots> = run_ops id (collided n) [Insert (512 * n) n]"
    by (simp only: r sum.case)
  also have "\<dots> = Inr (collided (Suc n))"
    by (simp only: run_ops.simps apply_op.simps insert_collided [OF n] sum.case prod.case)
  finally show ?case .
qed

lemma entries_chain_256: "entries (chain 256) = colliding 255"
proof -
  have u: "[0..<256] = [0..<255] @ [255]"
    using upt_Suc_append [of 0 255] by simp
  have "filter occupied (map (\<lambda>j. (of_nat j :: 8 word, Some (512 * j, j))) [0..<255])
          = map (\<lambda>j. (of_nat j, Some (512 * j, j))) [0..<255]"
    by (rule filter_True) (auto simp: occupied_def tag_of_nat_neq)
  then show ?thesis
    by (simp add: entries_def chain_def u colliding_def occupied_def)
qed

text \<open>The booleans that the \<open>insert\<close> calls of a run of insertions return.\<close>

fun insert_flags :: "('k \<Rightarrow> nat) \<Rightarrow> ('k, 'v) unordered_map \<Rightarrow> ('k \<times> 'v) list \<Rightarrow> bool list" where
  "insert_flags hasher t [] = []"
| "insert_flags hasher t (kv # kvs) =
     (case insert_pair hasher t kv of
        Inl err \<Rightarrow> []
      | Inr (t', iter, inserted) \<Rightarrow> inserted # insert_flags hasher t' kvs)"

lemma insert_flags_snoc:
  "run_ops hasher t (insert_all kvs) = Inr t1 \<Longrightarrow>
     insert_flags hasher t (kvs @ [kv]) = insert_flags hasher t kvs @ insert_flags hasher t1 [kv]"
proof (induction kvs arbitrary: t)
  case Nil
  then show ?case by (simp add: insert_all_def)
next
  case (Cons a kvs)
  obtain k v where a: "a = (k, v)" by (cases a)
  obtain t' it b where i: "insert_pair hasher t (k, v) = Inr (t', it, b)"
    and r: "run_ops hasher t' (insert_all kvs) = Inr t1"
    using Cons.prems a by (auto simp: insert_all_def split: sum.splits)
  show ?case using Cons.IH [OF r] i a by simp
qed

lemma flags_collided:
  "n \<le> 256 \<Longrightarrow> insert_flags id table512 (colliding n) = replicate n True"
proof (induction n)
  case 0
  then show ?case by (simp add: colliding_def)
next
  case (Suc n)
  from Suc.prems have n: "n \<le> 255" by simp
  then have n': "n \<le> 256" by simp
  have f: "insert_flags id table512 (colliding n) = replicate n True" using n' by (rule Suc.IH)
  have r: "run_ops id table512 (insert_all (colliding n)) = Inr (collided n)"
    using n' by (rule run_collided)
  have "insert_flags id table512 (colliding (Suc n))
          = insert_flags id table512 (colliding n) @ insert_flags id (collided n) [(512 * n, n)]"
    unfolding colliding_Suc using r by (rule insert_flags_snoc)
  also have "\<dots> = replicate n True @ [True]"
    by (simp only: f insert_flags.simps insert_collided [OF n] sum.case prod.case)
  finally show ?case by (simp only: replicate_append_same replicate_Suc)
qed

lemma is_pow2_wide: "is_pow2 9223372036854775808"
  unfolding is_pow2_def by (rule exI [of _ 63]) simp

lemma table2_wide_inv: "table_inv id table2_wide"
  using table2_wide_new
proof (rule unordered_map_table_inv)
  show "is_pow2 (m_capacity table2_wide)" by (simp add: table2_wide_def is_pow2_2)
  show "is_pow2 (GROWTH_FACTOR table2_wide)" by (simp add: table2_wide_def is_pow2_wide)
qed (simp_all add: table2_wide_def)


subsection \<open>\<open>closestPowerOfTwo\<close> on requests up to \<open>2 ^ 32\<close>\<close>

lemma smear_step:
  fixes x y :: "'a::len word"
  assumes "\<And>i. bit y i \<longleftrightarrow> (\<exists>d<k. bit x (i + d))"
  shows "bit (y OR drop_bit k y) i \<longleftrightarrow> (\<exists>d<2 * k. bit x (i + d))"
proof -
  have "bit (y OR drop_bit k y) i \<longleftrightarrow> bit y i \<or> bit y (k + i)"
    by (simp add: bit_or_iff bit_drop_bit_eq)
  also have "\<dots> \<longleftrightarrow> (\<exists>d<k. bit x (i + d)) \<or> (\<exists>d<k. bit x (k + i + d))"
    by (simp only: assms)
  also have "\<dots> \<longleftrightarrow> (\<exists>d<2 * k. bit x (i + d))"
  proof (intro iffI)
    assume "(\<exists>d<k. bit x (i + d)) \<or> (\<exists>d<k. bit x (k + i + d))"
    then show "\<exists>d<2 * k. bit x (i + d)"
    proof
      assume "\<exists>d<k. bit x (i + d)"
      then obtain d where "d < k" "bit x (i + d)" by blast
      then show ?thesis by (intro exI [of _ d]) simp
    next
      assume "\<exists>d<k. bit x (k + i + d)"
      then obtain d where d: "d < k" "bit x (k + i + d)" by blast
      then have "bit x (i + (k + d))" by (simp add: ac_simps)
      then show ?thesis using d(1) by (intro exI [of _ "k + d"]) simp
    qed
  next
    assume "\<exists>d<2 * k. bit x (i + d)"
    then obtain d where d: "d < 2 * k" "bit x (i + d)" by blast
    show "(\<exists>d<k. bit x (i + d)) \<or> (\<exists>d<k. bit x (k + i + d))"
    proof (cases "d < k")
      case True
      then show ?thesis using d(2) by blast
    next
      case False
      then have "d - k < k" and "k + i + (d - k) = i + d" using d(1) by simp_all
      then have "\<exists>e<k. bit x (k + i + e)" using d(2) by (intro exI [of _ "d - k"]) simp
      then show ?thesis by blast
    qed
  qed
  finally show ?thesis .
qed

lemma smear_bits:
  fixes n0 :: "'a::len word"
  defines "n1 \<equiv> n0 OR drop_bit 1 n0"
  defines "n2 \<equiv> n1 OR drop_bit 2 n1"
  defines "n3 \<equiv> n2 OR drop_bit 4 n2"
  defines "n4 \<equiv> n3 OR drop_bit 8 n3"
  defines "n5 \<equiv> n4 OR drop_bit 16 n4"
  shows "bit n5 i \<longleftrightarrow> (\<exists>d<32. bit n0 (i + d))"
proof -
  have 0: "bit n0 i \<longleftrightarrow> (\<exists>d<1. bit n0 (i + d))" for i by simp
  have 1: "bit n1 i \<longleftrightarrow> (\<exists>d<2. bit n0 (i + d))" for i
    unfolding n1_def using smear_step [of n0 1 n0 i, OF 0] by simp
  have 2: "bit n2 i \<longleftrightarrow> (\<exists>d<4. bit n0 (i + d))" for i
    unfolding n2_def using smear_step [of n1 2 n0 i, OF 1] by simp
  have 3: "bit n3 i \<longleftrightarrow> (\<exists>d<8. bit n0 (i + d))" for i
    unfolding n3_def using smear_step [of n2 4 n0 i, OF 2] by simp
  have 4: "bit n4 i \<longleftrightarrow> (\<exists>d<16. bit n0 (i + d))" for i
    unfolding n4_def using smear_step [of n3 8 n0 i, OF 3] by simp
  show ?thesis
    unfolding n5_def using smear_step [of n4 16 n0 i, OF 4] by simp
qed

lemma unat_exp_64:
  assumes "k < 64"
  shows "unat (2 ^ k :: 64 word) = 2 ^ k"
proof -
  have "(2 :: nat) ^ k < 2 ^ 64" using assms by (intro power_strict_increasing) simp_all
  moreover have "(2 ^ k :: 64 word) = of_nat (2 ^ k)" by simp
  ultimately show ?thesis by (simp only: unat_of_nat) simp
qed

lemma closestPowerOfTwo_small:
  fixes num :: "64 word"
  assumes "num \<le> 2 ^ 32"
  shows "\<exists>k. 1 \<le> k \<and> k \<le> 32 \<and> closestPowerOfTwo num = 2 ^ k \<and> num \<le> 2 ^ k \<and>
             (2 < num \<longrightarrow> (2 ^ (k - 1) :: 64 word) < num)"
proof (cases "num < 2")
  case True
  then have "closestPowerOfTwo num = 2 ^ 1" by (simp add: closestPowerOfTwo_def)
  moreover have "num \<le> 2 ^ 1" using True by simp
  moreover have "\<not> 2 < num" using True by simp
  ultimately show ?thesis by (intro exI [of _ 1]) simp
next
  case False
  define n0 where "n0 = num - 1"
  define n5 where "n5 = (let n1 = n0 OR drop_bit 1 n0;
                             n2 = n1 OR drop_bit 2 n1;
                             n3 = n2 OR drop_bit 4 n2;
                             n4 = n3 OR drop_bit 8 n3
                         in n4 OR drop_bit 16 n4)"
  have res: "closestPowerOfTwo num = n5 + 1"
    using False by (simp add: closestPowerOfTwo_def n5_def n0_def Let_def)
  have bits: "bit n5 i \<longleftrightarrow> (\<exists>d<32. bit n0 (i + d))" for i
    unfolding n5_def Let_def by (rule smear_bits)
  have un: "2 \<le> unat num" using False by (simp add: word_less_nat_alt)
  have "unat num \<le> unat (2 ^ 32 :: 64 word)" using assms by (simp only: word_le_nat_alt)
  then have ub: "unat num \<le> 2 ^ 32" by simp
  have num0: "num \<noteq> 0" using un by auto
  then have u0: "unat n0 = unat num - 1" unfolding n0_def by (rule unat_minus_one)
  then have n0_pos: "n0 \<noteq> 0" using un by auto
  have "unat n0 < unat (2 ^ 32 :: 64 word)" using u0 ub un by simp
  then have n0_lt: "n0 < 2 ^ 32" by (simp only: word_less_nat_alt)
  have low: "j < 32" if "bit n0 j" for j
  proof -
    have "n0 AND mask 32 = n0" using n0_lt by (rule less_mask_eq)
    then have "bit (n0 AND mask 32) j" using that by simp
    then show ?thesis by (simp add: bit_and_iff bit_mask_iff)
  qed
  have ex: "\<exists>j. bit n0 j"
  proof (rule ccontr)
    assume "\<not> (\<exists>j. bit n0 j)"
    then have "n0 = 0" by (intro bit_word_eqI) simp
    then show False using n0_pos by simp
  qed
  define S where "S = {j. bit n0 j}"
  have fin: "finite S"
  proof (rule finite_subset)
    show "S \<subseteq> {..<32}" using low by (auto simp: S_def)
  qed simp
  have ne: "S \<noteq> {}" using ex by (simp add: S_def)
  define m where "m = Max S"
  have "m \<in> S" unfolding m_def using fin ne by (rule Max_in)
  then have bm: "bit n0 m" by (simp add: S_def)
  then have m32: "m < 32" by (rule low)
  have top: "j \<le> m" if "bit n0 j" for j
    unfolding m_def using fin by (rule Max_ge) (simp add: S_def that)
  have n5: "n5 = mask (Suc m)"
  proof (rule bit_word_eqI)
    fix i assume "i < LENGTH(64)"
    have "(\<exists>d<32. bit n0 (i + d)) \<longleftrightarrow> i \<le> m"
    proof
      assume "\<exists>d<32. bit n0 (i + d)"
      then obtain d where "bit n0 (i + d)" by blast
      then have "i + d \<le> m" by (rule top)
      then show "i \<le> m" by simp
    next
      assume i: "i \<le> m"
      then have "m - i < 32" "i + (m - i) = m" using m32 by simp_all
      then show "\<exists>d<32. bit n0 (i + d)" using bm by (intro exI [of _ "m - i"]) simp
    qed
    then show "bit n5 i = bit (mask (Suc m) :: 64 word) i"
      using m32 by (auto simp: bits bit_mask_iff less_Suc_eq_le)
  qed
  have r: "closestPowerOfTwo num = 2 ^ Suc m"
    unfolding res n5 by (rule inc_mask_eq_exp)
  have pm: "(2 ^ m :: 64 word) \<le> n0"
  proof -
    have "(2 ^ m :: 64 word) AND n0 = 2 ^ m"
    proof (rule bit_word_eqI)
      fix i assume "i < LENGTH(64)"
      then show "bit ((2 ^ m :: 64 word) AND n0) i = bit (2 ^ m :: 64 word) i"
        using bm by (auto simp: bit_and_iff bit_exp_iff)
    qed
    then show ?thesis by (metis word_and_le1)
  qed
  have um: "unat (2 ^ m :: 64 word) = 2 ^ m" using m32 by (intro unat_exp_64) simp
  have us: "unat (2 ^ Suc m :: 64 word) = 2 ^ Suc m" using m32 by (intro unat_exp_64) simp
  have "unat n0 \<le> unat (mask (Suc m) :: 64 word)"
  proof -
    have "n0 AND mask (Suc m) = n0"
    proof (rule bit_word_eqI)
      fix i assume "i < LENGTH(64)"
      then show "bit (n0 AND mask (Suc m)) i = bit n0 i"
        using top [of i] m32 by (auto simp: bit_and_iff bit_mask_iff)
    qed
    then have "n0 \<le> mask (Suc m)" by (metis word_and_le1)
    then show ?thesis by (simp only: word_le_nat_alt)
  qed
  moreover have "unat (mask (Suc m) :: 64 word) = 2 ^ Suc m - 1"
  proof -
    have "(2 ^ Suc m :: 64 word) \<noteq> 0" using us by auto
    then have "unat (2 ^ Suc m - 1 :: 64 word) = unat (2 ^ Suc m :: 64 word) - 1"
      by (rule unat_minus_one)
    then show ?thesis by (simp only: mask_eq_decr_exp us)
  qed
  ultimately have "unat num \<le> 2 ^ Suc m" using u0 un by simp
  then have le: "num \<le> 2 ^ Suc m" using us by (simp add: word_le_nat_alt)
  have "2 ^ m \<le> unat n0" using pm um by (simp add: word_le_nat_alt)
  then have "2 ^ m < unat num" using u0 un by simp
  then have lt: "(2 ^ m :: 64 word) < num" using um by (simp add: word_less_nat_alt)
  show ?thesis
    using r le lt m32 by (intro exI [of _ "Suc m"]) simp
qed

lemma closestPowerOfTwo_pow2:
  fixes num :: "64 word"
  assumes "num \<le> 2 ^ 32"
  shows "is_pow2 (unat (closestPowerOfTwo num))" and "2 \<le> unat (closestPowerOfTwo num)"
    and "unat (closestPowerOfTwo num) \<le> 2 ^ 32"
proof -
  obtain k where k: "1 \<le> k" "k \<le> 32" "closestPowerOfTwo num = 2 ^ k"
    using closestPowerOfTwo_small [OF assms] by blast
  have u: "unat (closestPowerOfTwo num) = 2 ^ k" unfolding k(3) using k(2) by (intro unat_exp_64) simp
  show "is_pow2 (unat (closestPowerOfTwo num))" unfolding u is_pow2_def by blast
  have "(2 :: nat) ^ 1 \<le> 2 ^ k" using k(1) by (intro power_increasing) simp_all
  then show "2 \<le> unat (closestPowerOfTwo num)" unfolding u by simp
  have "(2 :: nat) ^ k \<le> 2 ^ 32" using k(2) by (intro power_increasing) simp_all
  then show "unat (closestPowerOfTwo num) \<le> 2 ^ 32" unfolding u .
qed

text \<open>
  The constructor builds a table that is in order when both requests are at most
  \<open>2 ^ 32\<close>, the load factor is not negative and \<open>m_max_elems\<close> is not 0.
\<close>

lemma unordered_map_in_order:
  fixes t :: "('k, 'v) unordered_map"
  assumes "unordered_map sizeof_value lf ic gf = Inr t"
    and "ic \<le> 2 ^ 32" and "gf \<le> 2 ^ 32" and "0 \<le> lf" and "0 < m_max_elems t"
  shows "table_inv hasher t"
  using assms(1)
proof (rule unordered_map_table_inv)
  note f = unordered_map_fields [OF assms(1)]
  show "is_pow2 (m_capacity t)" unfolding f(1) using assms(2) by (rule closestPowerOfTwo_pow2)
  show "2 \<le> m_capacity t" unfolding f(1) using assms(2) by (rule closestPowerOfTwo_pow2)
  show "is_pow2 (GROWTH_FACTOR t)" unfolding f(2) using assms(3) by (rule closestPowerOfTwo_pow2)
  show "2 \<le> GROWTH_FACTOR t" unfolding f(2) using assms(3) by (rule closestPowerOfTwo_pow2)
qed (use assms in simp_all)

subsection \<open>The pairs of a table come from the insertions\<close>

lemma entries_update_subset:
  assumes "i < length slots"
  shows "set (entries (slots[i := x])) \<subseteq> Set.insert (the (snd x)) (set (entries slots))"
proof
  fix kv assume "kv \<in> set (entries (slots[i := x]))"
  then obtain p where p: "p < length slots" "occupied (slots[i := x] ! p)"
    "the (snd (slots[i := x] ! p)) = kv"
    by (auto simp: entries_mem)
  show "kv \<in> Set.insert (the (snd x)) (set (entries slots))"
  proof (cases "p = i")
    case True
    then show ?thesis using p assms by simp
  next
    case False
    then have "occupied (slots ! p)" "the (snd (slots ! p)) = kv" using p by simp_all
    then have "kv \<in> set (entries slots)" using p(1) by (auto simp: entries_mem)
    then show ?thesis by simp
  qed
qed

lemma insert_loop_entries:
  "insert_loop cap slots kv probe i = Inr (slots', r, b) \<Longrightarrow>
     set (entries slots') \<subseteq> Set.insert kv (set (entries slots))"
proof (induction cap slots kv probe i arbitrary: slots' r b rule: insert_loop.induct)
  case (1 cap slots kv probe i)
  from "1.prems" have i: "i < length slots"
    by (subst (asm) insert_loop.simps) (auto split: if_splits)
  obtain info e where s: "slots ! i = (info, e)" by (cases "slots ! i")
  show ?case
  proof (cases "info = 255")
    case True
    then have "slots' = slots[i := (probe, Some kv)]"
      using "1.prems" s i by (subst (asm) insert_loop.simps) auto
    then show ?thesis using entries_update_subset [OF i, of "(probe, Some kv)"] by simp
  next
    case False
    then obtain r0 where e: "e = Some r0"
      using "1.prems" s i by (subst (asm) insert_loop.simps) (auto split: option.splits)
    show ?thesis
    proof (cases "info = probe \<and> fst r0 = fst kv")
      case True
      then have "slots' = slots"
        using "1.prems" s i e False by (subst (asm) insert_loop.simps) auto
      then show ?thesis by auto
    next
      case F2: False
      show ?thesis
      proof (cases "info < probe")
        case True
        let ?s1 = "slots[i := (probe, Some kv)]"
        have rec: "insert_loop cap ?s1 r0 (info + 1) (advance_wrap cap i) = Inr (slots', r, b)"
          using "1.prems" s i e False F2 True by (subst (asm) insert_loop.simps) auto
        have "set (entries slots') \<subseteq> Set.insert r0 (set (entries ?s1))"
          using "1.IH"(1) [of info e r0] s i e False F2 True rec by auto
        moreover have "set (entries ?s1) \<subseteq> Set.insert kv (set (entries slots))"
          using entries_update_subset [OF i, of "(probe, Some kv)"] by simp
        moreover have "r0 \<in> set (entries slots)"
          using i s e False by (auto simp: entries_mem occupied_def intro!: exI [of _ i])
        ultimately show ?thesis by auto
      next
        case F3: False
        have rec: "insert_loop cap slots kv (probe + 1) (advance_wrap cap i) = Inr (slots', r, b)"
          using "1.prems" s i e False F2 F3 by (subst (asm) insert_loop.simps) auto
        show ?thesis
          using "1.IH"(2) [of info e r0] s i e False F2 F3 rec by auto
      qed
    qed
  qed
qed

lemma entries_take_subset: "set (entries (take n slots)) \<subseteq> set (entries slots)"
proof -
  have "set (filter occupied (take n slots)) \<subseteq> set (filter occupied slots)"
    using set_take_subset [of n slots] by auto
  then show ?thesis by (auto simp: entries_def)
qed

lemma rehash_entries:
  assumes "\<And>t kv t' it b. ins t kv = Inr (t', it, b) \<Longrightarrow>
             set (entries (m_slots t')) \<subseteq> Set.insert kv (set (entries (m_slots t)))"
  shows "rehash ins t rest = Inr t' \<Longrightarrow>
           set (entries (m_slots t')) \<subseteq> set (entries (m_slots t)) \<union> set (entries rest)"
proof (induction rest arbitrary: t)
  case Nil
  then show ?case by simp
next
  case (Cons x rest)
  obtain info e where x: "x = (info, e)" by (cases x)
  show ?case
  proof (cases "info = 255")
    case True
    then show ?thesis using Cons x by (simp add: entries_Cons)
  next
    case False
    then obtain kv where e: "e = Some kv" using Cons.prems x by (cases e) auto
    obtain t1 it b where i: "ins t kv = Inr (t1, it, b)" and r: "rehash ins t1 rest = Inr t'"
      using Cons.prems x False e by (auto split: sum.splits)
    have "set (entries (m_slots t1)) \<subseteq> Set.insert kv (set (entries (m_slots t)))"
      using i by (rule assms)
    moreover have "set (entries (m_slots t')) \<subseteq> set (entries (m_slots t1)) \<union> set (entries rest)"
      using r by (rule Cons.IH)
    ultimately show ?thesis using x False e by (auto simp: entries_Cons)
  qed
qed

lemma grow_entries:
  fixes t :: "('k, 'v) unordered_map"
  assumes "\<And>t kv t' it b. ins t kv = Inr (t', it, b) \<Longrightarrow>
             set (entries (m_slots t')) \<subseteq> Set.insert kv (set (entries (m_slots t)))"
    and "grow ins t = Inr t'"
  shows "set (entries (m_slots t')) \<subseteq> set (entries (m_slots t))"
proof -
  obtain g where g: "grow_alloc t = Inr g"
    and r: "rehash ins g (take (m_capacity t) (m_slots t)) = Inr t'"
    using assms(2) unfolding grow_alloc_rehash by (auto split: sum.splits)
  obtain cap and sl :: "('k, 'v) slot list" where "allocate (ELEM_OFFSET t) cap = Inr sl"
    and "m_slots g = sl"
    using g by (auto simp: grow_alloc_def Let_def split: sum.splits)
  then have "m_slots g = replicate cap (255, None)" using allocate_Inr by blast
  then have "entries (m_slots g) = []" by (simp add: entries_empty)
  then have "set (entries (m_slots t')) \<subseteq> set (entries (take (m_capacity t) (m_slots t)))"
    using rehash_entries [of ins, OF assms(1) r] by simp
  then show ?thesis using entries_take_subset [of "m_capacity t" "m_slots t"] by blast
qed

lemma insert_with_entries:
  fixes t :: "('k, 'v) unordered_map"
  assumes "\<And>t kv t' it b. ins t kv = Inr (t', it, b) \<Longrightarrow>
             set (entries (m_slots t')) \<subseteq> Set.insert kv (set (entries (m_slots t)))"
    and "insert_with ins hasher t kv = Inr (t', it, b)"
  shows "set (entries (m_slots t')) \<subseteq> Set.insert kv (set (entries (m_slots t)))"
proof -
  obtain slots i c where l: "insert_loop (m_capacity t) (m_slots t) kv 0
      (hashAndTrim hasher t (fst kv)) = Inr (slots, i, c)"
    using assms(2) by (auto simp: insert_with_def split: sum.splits)
  note s = insert_loop_entries [OF l]
  show ?thesis
  proof (cases c)
    case False
    then have "t' = t\<lparr>m_slots := slots\<rparr>" using assms(2) l by (simp add: insert_with_def)
    then show ?thesis using s by simp
  next
    case True
    let ?t1 = "t\<lparr>m_size := size_t (m_size t + 1), m_slots := slots\<rparr>"
    have "(if m_size ?t1 = m_max_elems ?t1 then grow ins ?t1 else Inr ?t1) = Inr t'"
      using assms(2) l True by (auto simp: insert_with_def Let_def split: sum.splits)
    then have "set (entries (m_slots t')) \<subseteq> set (entries (m_slots ?t1))"
      using grow_entries [of ins ?t1 t', OF assms(1)] by (auto split: if_splits)
    then show ?thesis using s by auto
  qed
qed

lemma insert_depth_entries:
  fixes t :: "('k, 'v) unordered_map"
  shows "insert_depth n hasher t kv = Inr (t', it, b) \<Longrightarrow>
           set (entries (m_slots t')) \<subseteq> Set.insert kv (set (entries (m_slots t)))"
proof (induction n arbitrary: t kv t' it b)
  case 0
  then show ?case by simp
next
  case (Suc n)
  have "insert_with (insert_depth n hasher) hasher t kv = Inr (t', it, b)"
    using Suc.prems by simp
  then show ?case
  proof (rule insert_with_entries [rotated])
    show "set (entries (m_slots t2)) \<subseteq> Set.insert kv2 (set (entries (m_slots t1)))"
      if "insert_depth n hasher t1 kv2 = Inr (t2, it2, b2)"
      for t1 :: "('k, 'v) unordered_map" and kv2 t2 it2 b2
      using that by (rule Suc.IH)
  qed
qed

text \<open>
  \<open>table512_half\<close> is what \<open>unordered_map(0.5f, 512, 2)\<close> constructs; its \<open>m_max_elems\<close>
  is 256. \<open>collided_half n\<close> is this table with the buffer \<open>chain n\<close>.
\<close>

definition table512_half :: "(nat, nat) unordered_map" where
  "table512_half = \<lparr>ELEM_OFFSET = 17, LOAD_FACTOR = 1 / 2, INITIAL_CAPACITY = 512,
     GROWTH_FACTOR = 2, m_capacity_dec = 511, m_max_elems = 256, m_capacity = 512, m_size = 0,
     m_slots = replicate 512 (255, None)\<rparr>"

definition collided_half :: "nat \<Rightarrow> (nat, nat) unordered_map" where
  "collided_half n = table512_half\<lparr>m_size := n, m_slots := chain n\<rparr>"

text \<open>The capacity, and what \<open>find(key)\<close> points to, after a run of operations.\<close>

definition capacity_after ::
  "('k \<Rightarrow> nat) \<Rightarrow> ('k, 'v) unordered_map \<Rightarrow> ('k, 'v) operation list \<Rightarrow> error + nat" where
  "capacity_after hasher t ops =
     (case run_ops hasher t ops of Inl err \<Rightarrow> Inl err | Inr t' \<Rightarrow> Inr (m_capacity t'))"

definition lookup_after ::
  "('k \<Rightarrow> nat) \<Rightarrow> ('k, 'v) unordered_map \<Rightarrow> ('k, 'v) operation list \<Rightarrow> 'k
     \<Rightarrow> error + 'v option" where
  "lookup_after hasher t ops key =
     (case run_ops hasher t ops of Inl err \<Rightarrow> Inl err | Inr t' \<Rightarrow> lookup hasher t' key)"

lemma table512_half_new: "unordered_map 16 (1 / 2) 512 2 = Inr table512_half"
  by (simp add: unordered_map_def closestPowerOfTwo_def float_to_size_def allocate_def
      size_t_def table512_half_def)

lemma table512_half_inv: "table_inv id table512_half"
  using table512_half_new
proof (rule unordered_map_table_inv)
  show "is_pow2 (m_capacity table512_half)" by (simp add: table512_half_def is_pow2_512)
  show "is_pow2 (GROWTH_FACTOR table512_half)" by (simp add: table512_half_def is_pow2_2)
qed (simp_all add: table512_half_def)

lemma collided_half_0: "collided_half 0 = table512_half"
  by (simp add: collided_half_def chain_def table512_half_def)

lemma insert_collided_half:
  assumes "n \<le> 254"
  shows "insert_pair id (collided_half n) (512 * n, n) = Inr (collided_half (Suc n), n, True)"
proof -
  have n: "n \<le> 255" using assms by simp
  have i: "insert_loop 512 (chain n) (512 * n, n) 0 0 = Inr (chain (Suc n), n, True)"
    using insert_chain [OF n, of 0] by simp
  have f: "find_loop 512 (chain (Suc n)) (512 * n) 0 0 = Inr n"
    using find_chain [OF n, of 0] assms by simp
  have s: "size_t (Suc n) = Suc n" using assms by (intro size_t_id) simp
  have c: "collided_half n\<lparr>m_size := Suc n, m_slots := chain (Suc n)\<rparr> = collided_half (Suc n)"
    by (simp add: collided_half_def)
  show ?thesis
    unfolding insert_pair_unfold insert_with_def
    using assms i f s c
    by (simp add: hashAndTrim_def find_key_def home_slot_0 collided_half_def table512_half_def)
qed

lemma run_collided_half:
  "n \<le> 255 \<Longrightarrow> run_ops id table512_half (insert_all (colliding n)) = Inr (collided_half n)"
proof (induction n)
  case 0
  then show ?case by (simp add: colliding_def insert_all_def collided_half_0)
next
  case (Suc n)
  from Suc.prems have n: "n \<le> 254" by simp
  then have "n \<le> 255" by simp
  then have r: "run_ops id table512_half (insert_all (colliding n)) = Inr (collided_half n)"
    by (rule Suc.IH)
  have ia: "insert_all (colliding (Suc n)) = insert_all (colliding n) @ [Insert (512 * n) n]"
    by (simp add: colliding_Suc insert_all_def)
  have "run_ops id table512_half (insert_all (colliding (Suc n)))
          = (case run_ops id table512_half (insert_all (colliding n)) of
               Inl err \<Rightarrow> Inl err
             | Inr t1 \<Rightarrow> run_ops id t1 [Insert (512 * n) n])"
    unfolding ia by (rule run_ops_append)
  also have "\<dots> = run_ops id (collided_half n) [Insert (512 * n) n]"
    by (simp only: r sum.case)
  also have "\<dots> = Inr (collided_half (Suc n))"
    by (simp only: run_ops.simps apply_op.simps insert_collided_half [OF n] sum.case prod.case)
  finally show ?case .
qed

lemma last_key_fresh: "(130560, v) \<notin> set (colliding 255)"
  by (auto simp: colliding_def)

lemma last_insert_half:
  obtains t' where "insert_pair id (collided_half 255) (130560, 255) = Inr (t', 1024, True)"
    and "m_capacity t' = 1024" and "lookup id t' 130560 = Inr None"
proof -
  let ?t = "collided_half 255" and ?kv = "(130560 :: nat, 255 :: nat)"
  have run: "run_ops id table512_half (insert_all (colliding 255)) = Inr ?t"
    by (rule run_collided_half) simp
  have "well_formed table512_half" using table512_half_inv by (simp add: table_inv_def)
  then have wf: "well_formed ?t" using run run_ops_well_formed by blast
  have fit: "Suc (m_size ?t) = m_max_elems ?t \<longrightarrow>
       m_capacity ?t * GROWTH_FACTOR ?t * ELEM_OFFSET ?t + 1 < 2 ^ 64 \<and>
       m_capacity ?t * GROWTH_FACTOR ?t < 2 ^ 64 \<and>
       real (m_capacity ?t * GROWTH_FACTOR ?t) * LOAD_FACTOR ?t < 2 ^ 64"
    by (simp add: collided_half_def table512_half_def)
  obtain t' it b where "insert_depth (Suc (Suc 0)) id ?t ?kv = Inr (t', it, b)"
    using insert_depth_returns [OF wf fit, of 0 id ?kv] by blast
  then have "insert_depth 2 id ?t ?kv = Inr (t', it, b)" by (simp only: numeral_2_eq_2)
  then have ip: "insert_pair id ?t ?kv = Inr (t', it, b)" by (rule insert_pair_depth_2)
  then have iw: "insert_with (insert_depth 63 id) id ?t ?kv = Inr (t', it, b)"
    by (simp only: insert_pair_unfold)
  have h: "hashAndTrim id ?t (fst ?kv) = 0"
    using home_slot_0 [of 255] by (simp add: hashAndTrim_def collided_half_def table512_half_def)
  have l: "insert_loop (m_capacity ?t) (m_slots ?t) ?kv 0 (hashAndTrim id ?t (fst ?kv))
             = Inr (chain 256, 255, True)"
    unfolding h using insert_chain [of 255 0]
    by (simp add: collided_half_def table512_half_def)
  have full: "Suc (m_size ?t) = m_max_elems ?t"
    by (simp add: collided_half_def table512_half_def)
  from wf iw have g: "b \<and> find_key id t' (fst ?kv) = Inr it \<and>
      grow (insert_depth 63 id) (?t\<lparr>m_size := Suc (m_size ?t), m_slots := chain 256\<rparr>) = Inr t'"
  proof (cases rule: insert_with_cases)
    case (kept slots1)
    then show ?thesis using l by simp
  next
    case (placed slots1 r)
    then show ?thesis using full by simp
  next
    case (grew slots1 r)
    then have "slots1 = chain 256" using l by simp
    then show ?thesis using grew by simp
  qed
  note w = insert_pair_well_formed [OF wf ip]
  then have wf': "well_formed t'" by simp
  have cap: "m_capacity t' = 1024"
    using w g full by (simp add: collided_half_def table512_half_def)
  have "set (entries (m_slots t'))
          \<subseteq> set (entries (m_slots (?t\<lparr>m_size := Suc (m_size ?t), m_slots := chain 256\<rparr>)))"
  proof (rule grow_entries)
    show "grow (insert_depth 63 id) (?t\<lparr>m_size := Suc (m_size ?t), m_slots := chain 256\<rparr>)
            = Inr t'" using g by simp
    show "set (entries (m_slots t2)) \<subseteq> Set.insert kv2 (set (entries (m_slots t1)))"
      if "insert_depth 63 id t1 kv2 = Inr (t2, it2, b2)"
      for t1 :: "(nat, nat) unordered_map" and kv2 t2 it2 b2
      using that by (rule insert_depth_entries)
  qed
  then have sub: "set (entries (m_slots t')) \<subseteq> set (colliding 255)"
    by (simp add: entries_chain_256)
  obtain r where r: "find_key id t' 130560 = Inr r" "r \<le> m_capacity t'"
    "r < m_capacity t' \<longrightarrow> occupied (m_slots t' ! r) \<and> (\<exists>v. snd (m_slots t' ! r) = Some (130560, v))"
    using find_result [OF wf', of id 130560] by blast
  have "r = m_capacity t'"
  proof (rule ccontr)
    assume "r \<noteq> m_capacity t'"
    then have lt: "r < m_capacity t'" using r(2) by simp
    then obtain v where "occupied (m_slots t' ! r)" "snd (m_slots t' ! r) = Some (130560, v)"
      using r(3) by blast
    moreover have "length (m_slots t') = m_capacity t'" using wf' by (simp add: well_formed_def)
    ultimately have "(130560, v) \<in> set (entries (m_slots t'))"
      using lt by (auto simp: entries_mem intro!: exI [of _ r])
    then show False using sub last_key_fresh by blast
  qed
  then have f: "find_key id t' 130560 = Inr 1024" using r(1) cap by simp
  then have "lookup id t' 130560 = Inr None" using cap by (simp add: lookup_def)
  moreover have "it = 1024" using g f by simp
  ultimately show ?thesis using that ip g cap by simp
qed

lemma run_half_256:
  "capacity_after id table512_half (insert_all (colliding 256)) = Inr 1024"
  "lookup_after id table512_half (insert_all (colliding 256)) 130560 = Inr None"
proof -
  obtain t' where t': "insert_pair id (collided_half 255) (130560, 255) = Inr (t', 1024, True)"
    "m_capacity t' = 1024" "lookup id t' 130560 = Inr None"
    by (rule last_insert_half)
  have r: "run_ops id table512_half (insert_all (colliding 255)) = Inr (collided_half 255)"
    by (rule run_collided_half) simp
  have ia: "insert_all (colliding 256) = insert_all (colliding 255) @ [Insert 130560 255]"
    using colliding_Suc [of 255] by (simp add: insert_all_def)
  have "run_ops id table512_half (insert_all (colliding 256))
          = (case run_ops id table512_half (insert_all (colliding 255)) of
               Inl err \<Rightarrow> Inl err
             | Inr t1 \<Rightarrow> run_ops id t1 [Insert 130560 255])"
    unfolding ia by (rule run_ops_append)
  also have "\<dots> = run_ops id (collided_half 255) [Insert 130560 255]"
    by (simp only: r sum.case)
  also have "\<dots> = Inr t'"
    by (simp only: run_ops.simps apply_op.simps t'(1) sum.case prod.case)
  finally have run: "run_ops id table512_half (insert_all (colliding 256)) = Inr t'" .
  show "capacity_after id table512_half (insert_all (colliding 256)) = Inr 1024"
    unfolding capacity_after_def by (simp only: run sum.case t'(2))
  show "lookup_after id table512_half (insert_all (colliding 256)) 130560 = Inr None"
    unfolding lookup_after_def by (simp only: run sum.case t'(3))
qed

section \<open>The claims\<close>







text \<open>
  C3: in a table that is in order, \<open>erase(k)\<close> of a stored key returns 1, decreases
  \<open>m_size\<close> by exactly 1 and leaves a table in which \<open>find(k)\<close> is \<open>end()\<close>;
  \<open>erase(k)\<close> of a key that is not stored returns 0 and the table as it was.
\<close>

theorem erase_correct:
  assumes "table_inv hasher t"
  shows "(stored t k \<longrightarrow>
           (\<exists>t'. erase hasher t k = Inr (t', 1) \<and> Suc (m_size t') = m_size t \<and>
                  find_key hasher t' k = Inr (m_capacity t') \<and> lookup hasher t' k = Inr None)) \<and>
         (\<not> stored t k \<longrightarrow> erase hasher t k = Inr (t, 0))"
proof -
  from assms have wf: "well_formed t" by (simp add: table_inv_def)
  obtain t' n where e: "erase hasher t k = Inr (t', n)"
    using erase_returns [OF wf] by blast
  note inv = erase_table_inv [OF assms e]
  note fr = erase_well_formed [OF wf e]
  have f: "find_key hasher t' k = Inr (m_capacity t')"
    using fr inv by (intro find_absent) simp_all
  then have l: "lookup hasher t' k = Inr None" by (simp add: lookup_def)
  show ?thesis
  proof (cases "stored t k")
    case True
    then have "n = 1" using inv by simp
    then show ?thesis using True e fr f l by auto
  next
    case False
    then show ?thesis using inv e by simp
  qed
qed

theorem erase_correct_witness:
  "table_inv id table8_a \<and> stored table8_a 0 \<and> \<not> stored table8_a 5 \<and>
   erase id table8_a 0 = Inr (table8, 1) \<and> Suc (m_size table8) = m_size table8_a \<and>
   find_key id table8 0 = Inr (m_capacity table8) \<and>
   erase id table8_a 5 = Inr (table8_a, 0)"
proof -
  have wf: "well_formed table8_a" using table8_a_inv by (simp add: table_inv_def)
  have s0: "stored table8_a 0" and s5: "\<not> stored table8_a 5"
    by (simp_all add: stored_iff_key [OF wf] table8_a_entries)
  have e0: "erase id table8_a 0 = Inr (table8, 1)"
    by (simp add: run_simps table8_def table8_a_def)
  obtain t' where "erase id table8_a 0 = Inr (t', 1)" "Suc (m_size t') = m_size table8_a"
    "find_key id t' 0 = Inr (m_capacity t')"
    using erase_correct [OF table8_a_inv, of 0] s0 by blast
  moreover have "erase id table8_a 5 = Inr (table8_a, 0)"
    using erase_correct [OF table8_a_inv, of 5] s5 by blast
  ultimately show ?thesis using table8_a_inv s0 s5 e0 by simp
qed

text \<open>
  C4: in a table that is in order and stores \<open>k\<close> with the value \<open>v1\<close>,
  \<open>insert({k, v2})\<close> returns the table as it was (so \<open>m_size\<close> and the value \<open>v1\<close>
  stay), the iterator of the slot that holds \<open>(k, v1)\<close>, which is the slot \<open>find(k)\<close>
  returns, and \<open>false\<close>.
\<close>

theorem insert_present_is_noop:
  assumes "table_inv hasher t" and "(k, v1) \<in> set (entries (m_slots t))"
  shows "\<exists>p < m_capacity t. insert_pair hasher t (k, v2) = Inr (t, p, False) \<and>
           snd (m_slots t ! p) = Some (k, v1) \<and> find_key hasher t k = Inr p"
proof -
  from assms(1) have wf: "well_formed t"
    and rh: "robin_hood (m_capacity t) (hashAndTrim hasher t) (m_slots t)"
    by (simp_all add: table_inv_def)
  then have len: "length (m_slots t) = m_capacity t" and con: "constructed (m_slots t)"
    by (simp_all add: well_formed_def)
  obtain p where p: "p < m_capacity t" "occupied (m_slots t ! p)"
    "the (snd (m_slots t ! p)) = (k, v1)"
    using assms(2) entries_mem [of "(k, v1)" "m_slots t"] len by auto
  then have s: "snd (m_slots t ! p) = Some (k, v1)"
    using constructed_nth [OF con, of p] len by auto
  have key: "key_at (m_slots t) p = k" by (simp add: key_at_def s)
  have f: "find_key hasher t k = Inr p"
    using assms(1) p(1,2) key by (rule find_present)
  have h: "hashAndTrim hasher t k < m_capacity t" using wf by (rule hashAndTrim_less)
  have "insert_loop (m_capacity t) (m_slots t) (k, v2) 0 (hashAndTrim hasher t k)
          = Inr (m_slots t, p, False)"
    using rh p(1,2)
  proof (rule insert_loop_present)
    show "key_at (m_slots t) p = fst (k, v2)" using key by simp
    show "0 \<le> unat (fst (m_slots t ! p))" by simp
    show "unat (0 :: 8 word) = 0" by simp
    show "hashAndTrim hasher t k = (hashAndTrim hasher t (fst (k, v2)) + 0) mod m_capacity t"
      using h by simp
  qed
  then have "insert_pair hasher t (k, v2) = Inr (t, p, False)"
    by (simp add: insert_pair_unfold insert_with_def)
  then show ?thesis using p(1) s f by blast
qed

theorem insert_present_is_noop_witness:
  "table_inv id table8_a \<and> (0, 10) \<in> set (entries (m_slots table8_a)) \<and>
   insert_pair id table8_a (0, 20) = Inr (table8_a, 0, False) \<and>
   snd (m_slots table8_a ! 0) = Some (0, 10)"
proof -
  have m: "(0, 10) \<in> set (entries (m_slots table8_a))" by (simp add: table8_a_entries)
  have f: "find_key id table8_a 0 = Inr 0" by (simp add: run_simps table8_def table8_a_def)
  obtain p where "insert_pair id table8_a (0, 20) = Inr (table8_a, p, False)"
    "snd (m_slots table8_a ! p) = Some (0, 10)" "find_key id table8_a 0 = Inr p"
    using insert_present_is_noop [OF table8_a_inv m, of 20] by blast
  then show ?thesis using table8_a_inv m f by simp
qed

text \<open>
  C5, as amended: on a table that is in order, the insertion of distinct keys that the
  table does not store, as many as bring \<open>m_size\<close> to \<open>m_max_elems\<close>, multiplies the
  capacity by the growth factor, and no insertion before the last one changes the
  capacity; afterwards \<open>find\<close> returns, for every key inserted and every key stored
  before, a slot with its value. A freshly constructed table is the case \<open>m_size = 0\<close>,
  with exactly \<open>m_max_elems\<close> keys. This holds when every insertion returns a table (the
  capacity and the buffer of the growth fit \<open>size_t\<close>) and loses no pair (no probe
  distance reaches 255).
\<close>

theorem growth_at_max_elems:
  assumes "table_inv hasher t" and "distinct (map fst kvs)"
    and "\<forall>kv \<in> set kvs. \<not> stored t (fst kv)"
    and "m_size t + length kvs = m_max_elems t"
    and "run_ops hasher t (insert_all kvs) = Inr t'"
    and "lossless hasher t (insert_all kvs)"
  shows "m_capacity t' = m_capacity t * GROWTH_FACTOR t \<and>
         (\<forall>n < length kvs. \<forall>t1. run_ops hasher t (insert_all (take n kvs)) = Inr t1 \<longrightarrow>
            m_capacity t1 = m_capacity t) \<and>
         (\<forall>kv \<in> set kvs \<union> set (entries (m_slots t)).
            lookup hasher t' (fst kv) = Inr (Some (snd kv)))"
proof -
  from assms(1) have wf: "well_formed t" and sz: "length (entries (m_slots t)) = m_size t"
    by (simp_all add: table_inv_def)
  have "m_size t < m_max_elems t" using wf by (simp add: well_formed_def)
  then have "kvs \<noteq> []" using assms(4) by auto
  then obtain xs kv where kvs: "kvs = xs @ [kv]" by (cases kvs rule: rev_cases) auto
  obtain k v where kv: "kv = (k, v)" by (cases kv)
  have ia: "insert_all kvs = insert_all xs @ [Insert k v]"
    by (simp add: kvs kv insert_all_def)
  obtain t1 where r1: "run_ops hasher t (insert_all xs) = Inr t1"
    and a: "apply_op hasher t1 (Insert k v) = Inr t'"
    using assms(5) unfolding ia run_ops_append by (auto split: sum.splits)
  have l1: "lossless hasher t (insert_all xs)" and li: "lossless_insert hasher t1 (k, v)"
    using assms(6) r1 unfolding ia lossless_append by simp_all
  have d1: "distinct (map fst xs)" and n1: "\<forall>kv \<in> set xs. \<not> stored t (fst kv)"
    using assms(2,3) kvs by simp_all
  note s1 = run_inserts [OF assms(1) r1 l1 d1 n1]
  then have inv1: "table_inv hasher t1"
    and m1: "mset (entries (m_slots t1)) = mset xs + mset (entries (m_slots t))"
    and c1: "m_capacity t1 = m_capacity t" "m_max_elems t1 = m_max_elems t"
    using assms(4) kvs by simp_all
  then have wf1: "well_formed t1" and sz1: "length (entries (m_slots t1)) = m_size t1"
    by (simp_all add: table_inv_def)
  have "size (mset (entries (m_slots t1))) = length xs + m_size t" using m1 sz by simp
  then have full: "Suc (m_size t1) = m_max_elems t1" using sz1 c1 assms(4) kvs by simp
  have "set (entries (m_slots t1)) = set xs \<union> set (entries (m_slots t))"
    using m1 by (metis set_mset_mset set_mset_union)
  moreover have "k \<notin> fst ` set xs" using assms(2) kvs kv by auto
  moreover have "\<not> stored t k" using assms(3) kvs kv by simp
  ultimately have ns: "\<not> stored t1 k"
    by (auto simp: stored_iff_key [OF wf] stored_iff_key [OF wf1])
  obtain it b where i: "insert_pair hasher t1 (k, v) = Inr (t', it, b)"
    using a by (auto split: sum.splits)
  have b: "b" using insert_pair_table_inv [OF inv1 i li] ns by simp
  have g: "GROWTH_FACTOR t1 = GROWTH_FACTOR t" using run_ops_well_formed [OF wf r1] by simp
  have cap: "m_capacity t' = m_capacity t * GROWTH_FACTOR t"
    using insert_pair_well_formed [OF wf1 i] b full c1 g by simp
  have pre: "m_capacity t2 = m_capacity t"
    if n: "n < length kvs" and r: "run_ops hasher t (insert_all (take n kvs)) = Inr t2" for n t2
  proof -
    have "lossless hasher t (insert_all (take n kvs))"
      unfolding insert_all_take using assms(6) by (rule lossless_take)
    moreover have "distinct (map fst (take n kvs))"
      using assms(2) by (simp add: take_map [symmetric] distinct_take)
    moreover have "\<forall>kv \<in> set (take n kvs). \<not> stored t (fst kv)"
      using assms(3) by (meson in_set_takeD)
    ultimately have "m_size t + length (take n kvs) < m_max_elems t \<longrightarrow>
        m_capacity t2 = m_capacity t \<and> m_max_elems t2 = m_max_elems t"
      using run_inserts [OF assms(1) r] by blast
    then show ?thesis using n assms(4) by simp
  qed
  note s = run_inserts [OF assms(1,5,6,2,3)]
  then have inv': "table_inv hasher t'" by simp
  have "set (entries (m_slots t')) = set kvs \<union> set (entries (m_slots t))"
    using s by (metis set_mset_mset set_mset_union)
  then have "lookup hasher t' (fst kv) = Inr (Some (snd kv))"
    if "kv \<in> set kvs \<union> set (entries (m_slots t))" for kv
    using that lookup_stored(2) [OF inv', of "fst kv" "snd kv"] by simp
  then show ?thesis using cap pre by blast
qed

theorem growth_at_max_elems_witness:
  "unordered_map 16 (3 / 4) 4 2 = Inr table4 \<and> table_inv id table4 \<and>
   distinct (map fst [(0 :: nat, 10 :: nat), (1, 11), (2, 12)]) \<and>
   m_size table4 + length [(0 :: nat, 10 :: nat), (1, 11), (2, 12)] = m_max_elems table4 \<and>
   run_ops id table4 (insert_all [(0, 10), (1, 11), (2, 12)]) = Inr table4_c \<and>
   lossless id table4 (insert_all [(0, 10), (1, 11), (2, 12)]) \<and>
   m_capacity table4 = 4 \<and> GROWTH_FACTOR table4 = 2 \<and> m_capacity table4_c = 8 \<and>
   lookup id table4_c 0 = Inr (Some 10) \<and> lookup id table4_c 1 = Inr (Some 11) \<and>
   lookup id table4_c 2 = Inr (Some 12)"
proof -
  have wf: "well_formed table4" using table4_inv by (simp add: table_inv_def)
  have d: "distinct (map fst [(0 :: nat, 10 :: nat), (1, 11), (2, 12)])" by simp
  have n: "\<forall>kv \<in> set [(0 :: nat, 10 :: nat), (1, 11), (2, 12)]. \<not> stored table4 (fst kv)"
    by (simp add: stored_iff_key [OF wf] table4_entries)
  have s: "m_size table4 + length [(0 :: nat, 10 :: nat), (1, 11), (2, 12)] = m_max_elems table4"
    by (simp add: table4_def)
  note g = growth_at_max_elems [OF table4_inv d n s table4_c_run table4_c_lossless]
  then have "m_capacity table4_c = m_capacity table4 * GROWTH_FACTOR table4" by blast
  moreover have "lookup id table4_c 0 = Inr (Some 10)" "lookup id table4_c 1 = Inr (Some 11)"
    "lookup id table4_c 2 = Inr (Some 12)"
    using g by auto
  ultimately show ?thesis
    using table4_new table4_inv d s table4_c_run table4_c_lossless by (simp add: table4_def)
qed

text \<open>
  C5, as stated, fails in two ways. When a probe distance reaches 255:
  \<open>unordered_map(0.5f, 512, 2)\<close> has \<open>m_max_elems = 256\<close>, and the 256 keys \<open>512 * j\<close> all
  have the home slot 0 there; their insertion grows the table to the capacity 1024, but
  the last pair was stored with the info byte 255, the mark of an empty slot, \<open>grow\<close> does
  not reinsert it, and \<open>find\<close> of its key 130560 returns \<open>end()\<close>. And when the capacity
  of the growth does not fit \<open>size_t\<close>: \<open>unordered_map(0.75f, 2, 9223372036854775808)\<close>
  has \<open>m_max_elems = 1\<close>, and the insertion of one key computes the capacity
  \<open>size_type(2 * 2^63) = 0\<close> and then reinserts the pair into a buffer without slots.
\<close>

theorem growth_loses_a_key_or_overflows:
  "unordered_map 16 (1 / 2) 512 2 = Inr table512_half \<and> table_inv id table512_half \<and>
   m_max_elems table512_half = 256 \<and> length (colliding 256) = 256 \<and>
   distinct (map fst (colliding 256)) \<and> (130560, 255) \<in> set (colliding 256) \<and>
   capacity_after id table512_half (insert_all (colliding 256)) = Inr 1024 \<and>
   lookup_after id table512_half (insert_all (colliding 256)) 130560 = Inr None \<and>
   unordered_map 16 (3 / 4) 2 9223372036854775808 = Inr table2_wide \<and>
   table_inv id table2_wide \<and> m_max_elems table2_wide = 1 \<and>
   m_capacity table2_wide = 2 \<and> GROWTH_FACTOR table2_wide = 9223372036854775808 \<and>
   size_t (m_capacity table2_wide * GROWTH_FACTOR table2_wide) = 0 \<and>
   run_ops id table2_wide (insert_all [(0, 10)]) = Inl Out_of_bounds"
proof -
  have 1: "run_ops id table2_wide (insert_all [(0, 10)]) = Inl Out_of_bounds"
    by (simp add: insert_all_def run_simps grow_simps table2_wide_def)
  have 2: "size_t (m_capacity table2_wide * GROWTH_FACTOR table2_wide) = 0"
    by (simp add: size_t_def table2_wide_def)
  have 3: "distinct (map fst (colliding 256))"
    by (simp add: colliding_def distinct_map inj_on_def comp_def)
  have 4: "(130560, 255) \<in> set (colliding 256)"
    by (auto simp: colliding_def)
  have 5: "length (colliding 256) = 256" by (simp add: colliding_def)
  have 6: "m_max_elems table512_half = 256" by (simp add: table512_half_def)
  have 7: "m_max_elems table2_wide = 1" "m_capacity table2_wide = 2"
    "GROWTH_FACTOR table2_wide = 9223372036854775808"
    by (simp_all add: table2_wide_def)
  show ?thesis
    using table512_half_new table512_half_inv run_half_256 table2_wide_new table2_wide_inv
      1 2 3 4 5 6 7
    by (intro conjI)
qed

text \<open>
  C6: \<open>m_size \<le> m_max_elems\<close> after every operation, for every configuration.
  \<open>insert\<close> grows the table when \<open>m_size == m_max_elems\<close> after the increment, which
  never holds when \<open>m_max_elems\<close> is 0: \<open>unordered_map(0.125f, 2, 2)\<close> has
  \<open>m_max_elems = size_type(2 * 0.125f) = 0\<close>, and after one insertion \<open>m_size\<close> is 1.
\<close>

theorem size_above_max_elems:
  "unordered_map 16 (1 / 8) 2 2 = Inr table2_low \<and> m_max_elems table2_low = 0 \<and>
   insert_pair id table2_low (0, 10)
     = Inr (table2_low\<lparr>m_size := 1, m_slots := [(0, Some (0, 10)), (255, None)]\<rparr>, 0, True)"
  by (simp add: new_simps run_simps table2_low_def)




text \<open>
  C8: the capacity is a power of two, and \<open>closestPowerOfTwo n\<close> is the smallest power of
  two that is at least \<open>max n 2\<close>, for every \<open>n\<close>. The function smears the bits of
  \<open>n - 1\<close> over 1, 2, 4, 8 and 16 places only, which covers 32 bits. With the 64-bit
  \<open>size_t\<close>, \<open>n = 2 ^ 32 + 1\<close> gives \<open>2 ^ 33 - 1\<close>, which is no power of two, where
  the smallest power of two above \<open>n\<close> is \<open>2 ^ 33\<close>.
\<close>

theorem closestPowerOfTwo_above_32_bits:
  "closestPowerOfTwo (4294967297 :: 64 word) = 8589934591"
  by (simp add: closestPowerOfTwo_def)

text \<open>
  C9, as amended: on a freshly constructed table that is in order, after the insertion of
  \<open>N\<close> pairs with distinct keys the iteration from \<open>begin()\<close> to \<open>end()\<close> returns \<open>N\<close>
  pairs without duplicates, which are the pairs inserted, each once; on the fresh table
  itself \<open>begin()\<close> is \<open>end()\<close>. This holds when every insertion returns a table (the
  capacity and the buffer of a growth fit \<open>size_t\<close>) and loses no pair (no probe distance
  reaches 255).
\<close>

theorem iteration_complete:
  fixes t0 :: "('k, 'v) unordered_map"
  assumes "unordered_map sizeof_value lf ic gf = Inr t0" and "table_inv hasher t0"
    and "distinct (map fst kvs)"
    and "run_ops hasher t0 (insert_all kvs) = Inr t'"
    and "lossless hasher t0 (insert_all kvs)"
  shows "(\<exists>xs. iterate t' = Inr xs \<and> mset xs = mset kvs \<and> length xs = length kvs \<and>
               distinct xs) \<and>
         begin_iter t0 = end_iter t0"
proof -
  from assms(2) have wf: "well_formed t0" by (simp add: table_inv_def)
  have e: "entries (m_slots t0) = []"
    using unordered_map_fields(9) [OF assms(1)] by (simp add: entries_empty)
  then have ns: "\<forall>kv \<in> set kvs. \<not> stored t0 (fst kv)"
    by (simp add: stored_iff_key [OF wf])
  note s = run_inserts [OF assms(2,4,5,3) ns]
  then have wf': "well_formed t'" and m: "mset (entries (m_slots t')) = mset kvs"
    using e by (simp_all add: table_inv_def)
  have it: "iterate t' = Inr (entries (m_slots t'))" using wf' by (rule iterate_entries)
  have len: "length (entries (m_slots t')) = length kvs" using m by (rule mset_eq_length)
  have "distinct kvs" using assms(3) by (simp add: distinct_map)
  then have dis: "distinct (entries (m_slots t'))"
    using mset_eq_imp_distinct_iff [OF m] by blast
  have "begin_iter t0 = end_iter t0"
    using begin_iter_empty [OF wf e] by (simp add: end_iter_capacity)
  then show ?thesis using it m len dis by blast
qed

theorem iteration_complete_witness:
  "unordered_map 16 (3 / 4) 4 2 = Inr table4 \<and> table_inv id table4 \<and>
   distinct (map fst [(0 :: nat, 10 :: nat), (1, 11), (2, 12)]) \<and>
   run_ops id table4 (insert_all [(0, 10), (1, 11), (2, 12)]) = Inr table4_c \<and>
   lossless id table4 (insert_all [(0, 10), (1, 11), (2, 12)]) \<and>
   iterate table4_c = Inr [(0, 10), (1, 11), (2, 12)] \<and>
   begin_iter table4 = Inr 4 \<and> end_iter table4 = Inr 4"
proof -
  have d: "distinct (map fst [(0 :: nat, 10 :: nat), (1, 11), (2, 12)])" by simp
  have i: "iterate table4_c = Inr [(0, 10), (1, 11), (2, 12)]"
    by (simp add: iter_simps table4_def table4_c_def)
  have e: "end_iter table4 = Inr 4" by (simp add: iter_simps table4_def)
  from iteration_complete [OF table4_new table4_inv d table4_c_run table4_c_lossless]
  have "begin_iter table4 = end_iter table4" by blast
  then show ?thesis
    using table4_new table4_inv d table4_c_run table4_c_lossless i e by simp
qed

text \<open>
  C9, as stated, fails when a probe distance reaches 255: the 256 keys \<open>512 * j\<close> all have
  the home slot 0 in the table \<open>unordered_map(0.75f, 512, 2)\<close>. Every one of the 256
  insertions returns \<open>true\<close> and \<open>m_size\<close> is 256, but the last pair is stored with the
  info byte 255, the mark of an empty slot: \<open>insert\<close> returns \<open>end()\<close> for it, and the
  iteration returns the first 255 pairs only.
\<close>

theorem iteration_misses_a_pair:
  "unordered_map 16 (3 / 4) 512 2 = Inr table512 \<and> table_inv id table512 \<and>
   length (colliding 256) = 256 \<and> distinct (map fst (colliding 256)) \<and>
   run_ops id table512 (insert_all (colliding 256)) = Inr (collided 256) \<and>
   insert_flags id table512 (colliding 256) = replicate 256 True \<and>
   m_size (collided 256) = 256 \<and>
   insert_pair id (collided 255) (130560, 255) = Inr (collided 256, 512, True) \<and>
   iterate (collided 256) = Inr (colliding 255) \<and> length (colliding 255) = 255"
proof -
  have r: "run_ops id table512 (insert_all (colliding 256)) = Inr (collided 256)"
    by (rule run_collided) simp
  have "well_formed table512" using table512_inv by (simp add: table_inv_def)
  then have "well_formed (collided 256)" using r run_ops_well_formed by blast
  then have "iterate (collided 256) = Inr (entries (m_slots (collided 256)))"
    by (rule iterate_entries)
  then have i: "iterate (collided 256) = Inr (colliding 255)"
    by (simp add: collided_def entries_chain_256)
  have f: "insert_flags id table512 (colliding 256) = replicate 256 True"
    by (rule flags_collided) simp
  have l: "insert_pair id (collided 255) (130560, 255) = Inr (collided 256, 512, True)"
    using insert_collided [of 255] by simp
  have d: "distinct (map fst (colliding 256))"
    by (simp add: colliding_def distinct_map inj_on_def comp_def)
  show ?thesis
    using table512_new table512_inv r i f l d by (simp add: colliding_def collided_def)
qed

text \<open>
  C10, as amended: on a well-formed table, \<open>erase\<close> returns and leaves the capacity and
  the buffer length as they are; \<open>insert\<close>, when the capacity and the buffer of a growth
  fit \<open>size_t\<close>, returns and leaves the capacity as it is or, on the growth path,
  multiplies it by the growth factor; and over any run of insertions and erasures that
  return, the capacity is multiplied by the growth factor at most once per insertion and
  never changed otherwise, so it never decreases, the growth factor stays the same and
  the buffer has as many slots as the capacity says. \<open>find\<close> returns an iterator only.
\<close>

theorem capacity_only_grows:
  fixes t :: "('k, 'v) unordered_map"
  assumes "well_formed t"
  shows "(\<exists>t' n. erase hasher t key = Inr (t', n) \<and> m_capacity t' = m_capacity t \<and>
            length (m_slots t') = length (m_slots t)) \<and>
         ((Suc (m_size t) = m_max_elems t \<longrightarrow>
             m_capacity t * GROWTH_FACTOR t * ELEM_OFFSET t + 1 < 2 ^ 64 \<and>
             m_capacity t * GROWTH_FACTOR t < 2 ^ 64 \<and>
             real (m_capacity t * GROWTH_FACTOR t) * LOAD_FACTOR t < 2 ^ 64) \<longrightarrow>
          (\<exists>t' iter b. insert_pair hasher t kv = Inr (t', iter, b) \<and>
             m_capacity t' = (if b \<and> Suc (m_size t) = m_max_elems t
                              then m_capacity t * GROWTH_FACTOR t else m_capacity t))) \<and>
         (run_ops hasher t ops = Inr t2 \<longrightarrow>
            (\<exists>j \<le> length (filter is_insert ops).
               m_capacity t2 = m_capacity t * GROWTH_FACTOR t ^ j) \<and>
            m_capacity t \<le> m_capacity t2 \<and> GROWTH_FACTOR t2 = GROWTH_FACTOR t \<and>
            length (m_slots t2) = m_capacity t2)"
proof -
  have 1: "\<exists>t' n. erase hasher t key = Inr (t', n) \<and> m_capacity t' = m_capacity t \<and>
            length (m_slots t') = length (m_slots t)"
  proof -
    obtain t' n where e: "erase hasher t key = Inr (t', n)"
      using erase_returns [OF assms] by blast
    then show ?thesis using erase_well_formed [OF assms e] by blast
  qed
  have 2: "\<exists>t' iter b. insert_pair hasher t kv = Inr (t', iter, b) \<and>
             m_capacity t' = (if b \<and> Suc (m_size t) = m_max_elems t
                              then m_capacity t * GROWTH_FACTOR t else m_capacity t)"
    if fit: "Suc (m_size t) = m_max_elems t \<longrightarrow>
             m_capacity t * GROWTH_FACTOR t * ELEM_OFFSET t + 1 < 2 ^ 64 \<and>
             m_capacity t * GROWTH_FACTOR t < 2 ^ 64 \<and>
             real (m_capacity t * GROWTH_FACTOR t) * LOAD_FACTOR t < 2 ^ 64"
  proof -
    obtain t' it b where "insert_depth (Suc (Suc 0)) hasher t kv = Inr (t', it, b)"
      using insert_depth_returns [OF assms fit, of 0 hasher kv] by blast
    then have "insert_depth 2 hasher t kv = Inr (t', it, b)" by (simp only: numeral_2_eq_2)
    then have i: "insert_pair hasher t kv = Inr (t', it, b)" by (rule insert_pair_depth_2)
    then show ?thesis using insert_pair_well_formed [OF assms i] by blast
  qed
  have 3: "(\<exists>j \<le> length (filter is_insert ops).
               m_capacity t2 = m_capacity t * GROWTH_FACTOR t ^ j) \<and>
            m_capacity t \<le> m_capacity t2 \<and> GROWTH_FACTOR t2 = GROWTH_FACTOR t \<and>
            length (m_slots t2) = m_capacity t2"
    if run: "run_ops hasher t ops = Inr t2"
  proof -
    note r = run_ops_well_formed [OF assms run]
    then obtain j where j: "j \<le> length (filter is_insert ops)"
      "m_capacity t2 = m_capacity t * GROWTH_FACTOR t ^ j" by blast
    have "2 \<le> GROWTH_FACTOR t" using assms by (simp add: well_formed_def)
    then have "1 \<le> GROWTH_FACTOR t ^ j" by (intro one_le_power) simp
    then have "m_capacity t * 1 \<le> m_capacity t * GROWTH_FACTOR t ^ j" by (rule mult_le_mono2)
    then have "m_capacity t \<le> m_capacity t2" using j(2) by simp
    moreover have "length (m_slots t2) = m_capacity t2" using r by (simp add: well_formed_def)
    ultimately show ?thesis using j r by blast
  qed
  show ?thesis using 1 2 3 by blast
qed

theorem capacity_only_grows_witness:
  "well_formed table4 \<and>
   run_ops id table4 [Insert 0 10, Insert 1 11, Insert 2 12, Erase 0, Erase 1, Erase 2]
     = Inr (table8\<lparr>INITIAL_CAPACITY := 4\<rparr>) \<and>
   m_capacity table4 = 4 \<and> m_capacity (table8\<lparr>INITIAL_CAPACITY := 4\<rparr>) = 4 * 2 ^ 1 \<and>
   m_capacity table4 \<le> m_capacity (table8\<lparr>INITIAL_CAPACITY := 4\<rparr>) \<and>
   GROWTH_FACTOR (table8\<lparr>INITIAL_CAPACITY := 4\<rparr>) = GROWTH_FACTOR table4 \<and>
   length (m_slots (table8\<lparr>INITIAL_CAPACITY := 4\<rparr>)) = 8 \<and>
   Suc (m_size table4_b) = m_max_elems table4_b \<and>
   m_capacity table4_b * GROWTH_FACTOR table4_b * ELEM_OFFSET table4_b + 1 < 2 ^ 64 \<and>
   insert_pair id table4_b (2, 12) = Inr (table4_c, 2, True) \<and>
   m_capacity table4_c = m_capacity table4_b * GROWTH_FACTOR table4_b"
proof -
  have wf: "well_formed table4" using table4_inv by (simp add: table_inv_def)
  have wfb: "well_formed table4_b" using table4_b_inv by (simp add: table_inv_def)
  have r: "run_ops id table4 [Insert 0 10, Insert 1 11, Insert 2 12, Erase 0, Erase 1, Erase 2]
     = Inr (table8\<lparr>INITIAL_CAPACITY := 4\<rparr>)"
    by (simp add: run_simps grow_simps table4_def table8_def)
  have i: "insert_pair id table4_b (2, 12) = Inr (table4_c, 2, True)"
    by (simp add: run_simps grow_simps table4_def table4_b_def table4_c_def)
  have s: "Suc (m_size table4_b) = m_max_elems table4_b"
    "m_capacity table4_b * GROWTH_FACTOR table4_b * ELEM_OFFSET table4_b + 1 < 2 ^ 64"
    "m_capacity table4_b * GROWTH_FACTOR table4_b < 2 ^ 64"
    "real (m_capacity table4_b * GROWTH_FACTOR table4_b) * LOAD_FACTOR table4_b < 2 ^ 64"
    by (simp_all add: table4_def table4_b_def)
  from capacity_only_grows [OF wf, where hasher = id and ops = "[Insert 0 10, Insert 1 11,
      Insert 2 12, Erase 0, Erase 1, Erase 2]" and ?t2.0 = "table8\<lparr>INITIAL_CAPACITY := 4\<rparr>"] r
  have a: "m_capacity table4 \<le> m_capacity (table8\<lparr>INITIAL_CAPACITY := 4\<rparr>)"
    "GROWTH_FACTOR (table8\<lparr>INITIAL_CAPACITY := 4\<rparr>) = GROWTH_FACTOR table4" by blast+
  obtain t' it b where "insert_pair id table4_b (2, 12) = Inr (t', it, b)"
    "m_capacity t' = (if b \<and> Suc (m_size table4_b) = m_max_elems table4_b
                      then m_capacity table4_b * GROWTH_FACTOR table4_b else m_capacity table4_b)"
    using capacity_only_grows [OF wfb, where hasher = id and kv = "(2, 12)"] s by blast
  then have b: "m_capacity table4_c = m_capacity table4_b * GROWTH_FACTOR table4_b"
    using i s(1) by simp
  show ?thesis using wf r a b i s(1,2) by (simp add: table4_def table8_def)
qed

text \<open>
  C10, as stated, fails when the capacity of a growth does not fit \<open>size_t\<close>: in the table
  \<open>unordered_map(0.75f, 2, 9223372036854775808)\<close> the first insertion places its pair and
  grows, and \<open>grow\<close> sets \<open>m_capacity\<close> to \<open>size_type(2 * 2^63) = 0\<close>, below the
  capacity 2 it had, before it reinserts the pair into a buffer without slots.
\<close>

theorem capacity_wraps_to_zero:
  "unordered_map 16 (3 / 4) 2 9223372036854775808 = Inr table2_wide \<and>
   table_inv id table2_wide \<and> m_capacity table2_wide = 2 \<and>
   insert_loop 2 (m_slots table2_wide) (0, 10) 0 (hashAndTrim id table2_wide 0)
     = Inr ([(0, Some (0, 10)), (255, None)], 0, True) \<and>
   grow_alloc (table2_wide\<lparr>m_size := 1, m_slots := [(0, Some (0, 10)), (255, None)]\<rparr>)
     = Inr (table2_wide\<lparr>m_capacity_dec := 18446744073709551615, m_max_elems := 0,
              m_capacity := 0, m_size := 0, m_slots := []\<rparr>) \<and>
   insert_pair id table2_wide (0, 10) = Inl Out_of_bounds"
proof -
  have "insert_loop 2 (m_slots table2_wide) (0, 10) 0 (hashAndTrim id table2_wide 0)
     = Inr ([(0, Some (0, 10)), (255, None)], 0, True)"
    by (simp add: run_simps table2_wide_def)
  moreover have
    "grow_alloc (table2_wide\<lparr>m_size := 1, m_slots := [(0, Some (0, 10)), (255, None)]\<rparr>)
     = Inr (table2_wide\<lparr>m_capacity_dec := 18446744073709551615, m_max_elems := 0,
              m_capacity := 0, m_size := 0, m_slots := []\<rparr>)"
    by (simp add: grow_alloc_def allocate_def float_to_size_def size_t_def table2_wide_def)
  moreover have "insert_pair id table2_wide (0, 10) = Inl Out_of_bounds"
    by (simp add: run_simps grow_simps table2_wide_def)
  ultimately show ?thesis
    using table2_wide_new table2_wide_inv by (simp add: table2_wide_def)
qed

end
